theory Spec2Isabelle
  imports Main "HOL-Library.Sublist"
begin

text \<open>
  The tracers of \<open>tracer.go\<close>: a buffer shared by the producers and one write loop, two
  file sinks and a remote sink. The goroutines are modelled by interleaved atomic steps;
  the store of backing arrays, the channel, the host and the clock are explicit.
\<close>

section \<open>Go runtime objects used by tracer.go\<close>

subsection \<open>Slices of event pointers\<close>

text \<open>
  A Go slice is a view (backing array, length, capacity). The tracer keeps two of them,
  \<open>t.buf\<close> and the write loop's local \<open>buf\<close>, and exchanges them; \<open>buf[:0]\<close> keeps the
  backing array. The arrays live in an explicit store, so that sharing of a backing array
  between the producer side and the write loop would be visible. A cell holds a pointer
  to an event, \<open>None\<close> being Go's \<open>nil\<close>.
\<close>

type_synonym 'e heap = "'e option list list"

record slice =
  arr :: "nat option"
  len :: nat
  cap :: nat

definition nil_slice :: slice where
  "nil_slice = \<lparr>arr = None, len = 0, cap = 0\<rparr>"

text \<open>\<open>cells h s\<close> is what \<open>range s\<close> reads: the first \<open>len s\<close> cells of the backing array.\<close>

definition cells :: "'e heap \<Rightarrow> slice \<Rightarrow> 'e option list" where
  "cells h s = (case arr s of None \<Rightarrow> [] | Some a \<Rightarrow> take (len s) (h ! a))"

text \<open>\<open>s[:0]\<close>: same backing array and capacity, length zero.\<close>

definition reslice0 :: "slice \<Rightarrow> slice" where
  "reslice0 s = s\<lparr>len := 0\<rparr>"

text \<open>
  Capacity chosen by the runtime when \<open>append\<close> has to reallocate. The exact policy
  belongs to the Go runtime; the development relies only on \<open>cap_lt_growcap\<close>.
\<close>

definition growcap :: "nat \<Rightarrow> nat" where
  "growcap c = (if c = 0 then 1 else 2 * c)"

text \<open>
  \<open>append(s, v)\<close>: writes in place when there is room, otherwise copies the cells into
  a new backing array (a new address in the store) and writes there.
\<close>

definition go_append :: "'e heap \<Rightarrow> slice \<Rightarrow> 'e option \<Rightarrow> 'e heap \<times> slice" where
  "go_append h s v =
     (let grown = (h @ [cells h s @ v # replicate (growcap (cap s) - Suc (len s)) None],
                   \<lparr>arr = Some (length h), len = Suc (len s), cap = growcap (cap s)\<rparr>)
      in case arr s of
           None \<Rightarrow> grown
         | Some a \<Rightarrow>
             if len s < cap s
             then (h[a := (h ! a)[len s := v]], s\<lparr>len := Suc (len s)\<rparr>)
             else grown)"

text \<open>\<open>s[i] = nil\<close> for an index the loop has already checked to be in range.\<close>

definition set_nil :: "'e heap \<Rightarrow> slice \<Rightarrow> nat \<Rightarrow> 'e heap" where
  "set_nil h s i = (case arr s of None \<Rightarrow> h | Some a \<Rightarrow> h[a := (h ! a)[i := None]])"

subsection \<open>The wake channel: \<open>make(chan struct{}, 1)\<close>\<close>

record chan =
  queued :: nat
  closed :: bool

definition make_chan :: chan where
  "make_chan = \<lparr>queued = 0, closed = False\<rparr>"

text \<open>
  \<open>select { case ch <- struct{}{}: default: }\<close>. A send on a closed channel panics
  (\<open>None\<close>), also inside a \<open>select\<close> with a \<open>default\<close>; on an open channel the value is
  buffered when the single slot is free and the \<open>default\<close> branch runs otherwise.
\<close>

definition nb_send :: "chan \<Rightarrow> chan option" where
  "nb_send c =
     (if closed c then None
      else if queued c < 1 then Some (c\<lparr>queued := Suc (queued c)\<rparr>)
      else Some c)"

text \<open>
  \<open>_, ok := <-ch\<close>: a buffered value is delivered first (\<open>ok = true\<close>); on an empty closed
  channel the receive returns at once with \<open>ok = false\<close>; on an empty open channel it
  blocks (\<open>None\<close>).
\<close>

definition recv :: "chan \<Rightarrow> (bool \<times> chan) option" where
  "recv c =
     (if 0 < queued c then Some (True, c\<lparr>queued := queued c - 1\<rparr>)
      else if closed c then Some (False, c)
      else None)"

text \<open>\<open>close(ch)\<close> panics (\<open>None\<close>) on a channel that is already closed.\<close>

definition close_chan :: "chan \<Rightarrow> chan option" where
  "close_chan c = (if closed c then None else Some (c\<lparr>closed := True\<rparr>))"

section \<open>basicTracer\<close>

text \<open>
  The struct of lines 23-27, together with the store its slice points into. The mutex is
  not a field: each critical section (lines 30-32 and the buffer exchange of the write
  loops) is one atomic step of the model.
\<close>

record 'e basicTracer =
  heap :: "'e heap"
  ch :: chan
  buf :: slice

text \<open>Lines 30-32: \<open>t.buf = append(t.buf, evt)\<close> under the mutex.\<close>

definition Trace_append ::
  "'e \<Rightarrow> ('e, 'z) basicTracer_scheme \<Rightarrow> ('e, 'z) basicTracer_scheme" where
  "Trace_append evt t =
     (case go_append (heap t) (buf t) (Some evt) of (h, b) \<Rightarrow> t\<lparr>heap := h, buf := b\<rparr>)"

text \<open>Lines 34-37: the non-blocking send; \<open>None\<close> is the panic of a closed channel.\<close>

definition Trace_signal ::
  "('e, 'z) basicTracer_scheme \<Rightarrow> ('e, 'z) basicTracer_scheme option" where
  "Trace_signal t = (case nb_send (ch t) of None \<Rightarrow> None | Some c \<Rightarrow> Some (t\<lparr>ch := c\<rparr>))"

text \<open>\<open>Trace\<close> as one caller sees it when nothing else runs in between.\<close>

definition Trace ::
  "'e \<Rightarrow> ('e, 'z) basicTracer_scheme \<Rightarrow> ('e, 'z) basicTracer_scheme option" where
  "Trace evt t = Trace_signal (Trace_append evt t)"

text \<open>Lines 40-42.\<close>

definition Close ::
  "('e, 'z) basicTracer_scheme \<Rightarrow> ('e, 'z) basicTracer_scheme option" where
  "Close t = (case close_chan (ch t) of None \<Rightarrow> None | Some c \<Rightarrow> Some (t\<lparr>ch := c\<rparr>))"

text \<open>
  The buffer exchange of every write loop (lines 74-78, 126-130, 191-195):
  \<open>tmp := t.buf; t.buf = buf[:0]; buf = tmp\<close>. Returns the loop's new \<open>buf\<close>.
\<close>

definition swap_buffers ::
  "slice \<Rightarrow> ('e, 'z) basicTracer_scheme \<Rightarrow> slice \<times> ('e, 'z) basicTracer_scheme" where
  "swap_buffers b t = (buf t, t\<lparr>buf := reslice0 b\<rparr>)"

section \<open>Interleaved executions\<close>

text \<open>
  The goroutines of a sink (any number of producers inside \<open>Trace\<close>, a caller of
  \<open>Close\<close>, the write loop) take turns; an action names the goroutine that moves and
  what the environment answers. A step is disabled when that goroutine cannot move
  (a blocking receive, or no such goroutine at that point). A panic ends the run.
\<close>

text \<open>
  What the event and the file answer to one encode call of a file sink: the record is
  written, the event cannot be serialized, or the write to \<open>t.w\<close> returns an error.
\<close>

datatype encres = Written | MarshalError | WriteError

datatype 'e action =
    TraceAppend 'e   \<comment> \<open>a producer runs lines 30-32\<close>
  | TraceSignal      \<comment> \<open>a producer that has appended runs lines 34-37\<close>
  | CloseCall        \<comment> \<open>\<open>Close()\<close>\<close>
  | Loop             \<comment> \<open>the write loop runs its next statement\<close>
  | Encode encres    \<comment> \<open>file sinks: the loop encodes one event\<close>
  | WriteMsg bool    \<comment> \<open>remote sink: \<open>w.WriteMsg(&batch)\<close>; \<open>False\<close> is an error\<close>
  | Flush bool       \<comment> \<open>remote sink: \<open>gzipW.Flush()\<close>; \<open>False\<close> is an error\<close>
  | Tick nat         \<comment> \<open>remote sink: time passes\<close>

datatype 's outcome = Next 's | Disabled | Panic

fun run :: "('a \<Rightarrow> 's \<Rightarrow> 's outcome) \<Rightarrow> 'a list \<Rightarrow> 's \<Rightarrow> 's outcome" where
  "run st [] s = Next s"
| "run st (a # as) s =
     (case st a s of Next s' \<Rightarrow> run st as s' | Disabled \<Rightarrow> Disabled | Panic \<Rightarrow> Panic)"

text \<open>
  What every sink has besides the struct: the write loop's local \<open>buf\<close>, the producers
  that have left the critical section of \<open>Trace\<close> and not yet reached the \<open>select\<close>, and
  two histories that no step reads.
\<close>

record 'e sink = "'e basicTracer" +
  lbuf :: slice                      \<comment> \<open>\<open>doWrite\<close>'s local \<open>buf\<close>\<close>
  sending :: nat                     \<comment> \<open>producers between line 32 and line 34\<close>
  errlog :: nat                      \<comment> \<open>calls of \<open>log.Errorf\<close>\<close>
  batches :: "'e option list list"   \<comment> \<open>history: content of \<open>buf\<close> after each exchange\<close>

fun producer :: "'e action \<Rightarrow> ('e, 'z) sink_scheme \<Rightarrow> ('e, 'z) sink_scheme outcome" where
  "producer (TraceAppend evt) s = Next ((Trace_append evt s)\<lparr>sending := Suc (sending s)\<rparr>)"
| "producer TraceSignal s =
     (if sending s = 0 then Disabled
      else case Trace_signal s of
             None \<Rightarrow> Panic
           | Some s' \<Rightarrow> Next (s'\<lparr>sending := sending s - 1\<rparr>))"
| "producer CloseCall s = (case Close s of None \<Rightarrow> Panic | Some s' \<Rightarrow> Next s')"
| "producer _ s = Disabled"

text \<open>The exchange as a loop step: the loop's \<open>buf\<close> becomes the old \<open>t.buf\<close>.\<close>

definition exchange :: "('e, 'z) sink_scheme \<Rightarrow> ('e, 'z) sink_scheme" where
  "exchange s =
     (case swap_buffers (lbuf s) s of
        (b, s') \<Rightarrow> s'\<lparr>lbuf := b, batches := batches s @ [cells (heap s) b]\<rparr>)"

section \<open>File sinks: JSONTracer and PBTracer\<close>

text \<open>
  The two write loops (lines 68-93 and 120-145) differ only in the encoder, which each
  loop creates once, before its first iteration (lines 70 and 122). The file is modelled as
  the list of complete records written to it.
\<close>

datatype format = JSON | PB

datatype 'e frame =
    JsonLine "'e option"      \<comment> \<open>the JSON encoding of the event and a newline\<close>
  | PbDelimited "'e option"   \<comment> \<open>a length prefix and the serialized event\<close>

fun frame_of :: "format \<Rightarrow> 'e option \<Rightarrow> 'e frame" where
  "frame_of JSON v = JsonLine v"
| "frame_of PB v = PbDelimited v"

text \<open>Where the write loop stands; the flag is \<open>ok\<close> of the last receive.\<close>

datatype fpc =
    FRecv              \<comment> \<open>\<open>_, ok := <-t.ch\<close>\<close>
  | FSwap bool         \<comment> \<open>the buffer exchange\<close>
  | FRange bool nat    \<comment> \<open>head of \<open>for i, evt := range buf\<close> at index \<open>i\<close>\<close>
  | FClear bool nat    \<comment> \<open>\<open>buf[i] = nil\<close>\<close>
  | FDone              \<comment> \<open>returned\<close>

record 'e filesink = "'e sink" +
  fmt :: format
  pc :: fpc
  w :: "'e frame list"          \<comment> \<open>records written to \<open>t.w\<close>\<close>
  wcloses :: nat                \<comment> \<open>calls of \<open>t.w.Close()\<close>\<close>
  encerr :: bool                \<comment> \<open>the encoder of line 70 has kept a write error\<close>
  encoded :: "'e option list"   \<comment> \<open>history: arguments of the encode calls\<close>

text \<open>
  \<open>OpenJSONTracer\<close> and \<open>OpenPBTracer\<close>: \<open>None\<close> with the error of \<open>os.OpenFile\<close>,
  otherwise the tracer, its goroutine about to run \<open>doWrite\<close>.
\<close>

definition open_tracer :: "format \<Rightarrow> 'e filesink" where
  "open_tracer f =
     \<lparr>heap = [], ch = make_chan, buf = nil_slice,
      lbuf = nil_slice, sending = 0, errlog = 0, batches = [],
      fmt = f, pc = FRecv, w = [], wcloses = 0, encerr = False, encoded = []\<rparr>"

definition OpenJSONTracer :: "bool \<Rightarrow> 'e filesink option" where
  "OpenJSONTracer file_opened = (if file_opened then Some (open_tracer JSON) else None)"

definition OpenPBTracer :: "bool \<Rightarrow> 'e filesink option" where
  "OpenPBTracer file_opened = (if file_opened then Some (open_tracer PB) else None)"

text \<open>\<open>NewJSONTracer\<close> and \<open>NewPBTracer\<close> fix the flags and the mode of \<open>os.OpenFile\<close>.\<close>

definition NewJSONTracer :: "bool \<Rightarrow> 'e filesink option" where
  "NewJSONTracer file_opened = OpenJSONTracer file_opened"

definition NewPBTracer :: "bool \<Rightarrow> 'e filesink option" where
  "NewPBTracer file_opened = OpenPBTracer file_opened"

definition doWrite_step :: "'e filesink \<Rightarrow> 'e filesink outcome" where
  "doWrite_step s =
     (case pc s of
        FRecv \<Rightarrow>
          (case recv (ch s) of
             None \<Rightarrow> Disabled
           | Some (ok, c) \<Rightarrow> Next (s\<lparr>ch := c, pc := FSwap ok\<rparr>))
      | FSwap ok \<Rightarrow> Next ((exchange s)\<lparr>pc := FRange ok 0\<rparr>)
      | FRange ok i \<Rightarrow>
          if i < len (lbuf s) then Disabled
          else if ok then Next (s\<lparr>pc := FRecv\<rparr>)
          else Next (s\<lparr>wcloses := Suc (wcloses s), pc := FDone\<rparr>)
      | FClear ok i \<Rightarrow>
          Next (s\<lparr>heap := set_nil (heap s) (lbuf s) i, pc := FRange ok (Suc i)\<rparr>)
      | FDone \<Rightarrow> Disabled)"

text \<open>
  One call \<open>enc.Encode(evt)\<close> (line 81) or \<open>w.WriteMsg(evt)\<close> (line 133): the records it
  writes, whether it returns an error, and whether the encoder holds a kept error
  afterwards. The \<open>json.Encoder\<close> keeps the first error of a write to \<open>t.w\<close> and from then
  on every \<open>Encode\<close> returns that error at once, without serializing or writing; an error
  of the serialization is returned and not kept. The delimited writer of \<open>ggio\<close> keeps
  nothing: each \<open>WriteMsg\<close> serializes and writes anew.
\<close>

definition encoder_call ::
  "format \<Rightarrow> bool \<Rightarrow> encres \<Rightarrow> 'e option \<Rightarrow> 'e frame list \<times> bool \<times> bool" where
  "encoder_call f kept r evt =
     (if f = JSON \<and> kept then ([], True, True)
      else case r of
             Written \<Rightarrow> ([frame_of f evt], False, kept)
           | MarshalError \<Rightarrow> ([], True, kept)
           | WriteError \<Rightarrow> ([], True, kept \<or> f = JSON))"

text \<open>
  Lines 80-85 (132-137) for one event: the event is read from \<open>buf[i]\<close> and handed to the
  encoder; an error is logged and nothing else changes.
\<close>

definition doWrite_encode :: "encres \<Rightarrow> 'e filesink \<Rightarrow> 'e filesink outcome" where
  "doWrite_encode r s =
     (case pc s of
        FRange ok i \<Rightarrow>
          if i < len (lbuf s) then
            (let evt = cells (heap s) (lbuf s) ! i in
             case encoder_call (fmt s) (encerr s) r evt of
               (recs, bad, kept) \<Rightarrow>
                 Next (s\<lparr>errlog := (if bad then Suc (errlog s) else errlog s),
                         pc := FClear ok i, w := w s @ recs, encerr := kept,
                         encoded := encoded s @ [evt]\<rparr>))
          else Disabled
      | _ \<Rightarrow> Disabled)"

fun fstep :: "'e action \<Rightarrow> 'e filesink \<Rightarrow> 'e filesink outcome" where
  "fstep Loop s = doWrite_step s"
| "fstep (Encode r) s = doWrite_encode r s"
| "fstep a s = producer a s"

section \<open>RemoteTracer\<close>

subsection \<open>The context, the host and the clock\<close>

text \<open>
  \<open>t.ctx\<close> is cancelled at \<open>cancel_at\<close> (never when \<open>None\<close>); the host answers its
  successive \<open>Connect\<close> and \<open>NewStream\<close> calls by \<open>replies\<close>, each the time the call takes
  and whether it succeeds. A function that runs out of replies has not returned: its value
  is \<open>None\<close>. Times are in nanoseconds, as \<open>time.Duration\<close>.
\<close>

datatype error = HostError | CtxError | IOError

datatype hostcall = Connect | NewStream

record netenv =
  now :: nat
  cancel_at :: "nat option"
  timer_first :: bool               \<comment> \<open>which \<open>select\<close> case runs when both are ready at once\<close>
  replies :: "(nat \<times> bool) list"
  opened :: nat                     \<comment> \<open>streams opened so far; the next stream handle\<close>
  calls :: "(hostcall \<times> nat) list"   \<comment> \<open>history: host calls and their start times\<close>

definition second :: nat where
  "second = 1000000000"

definition minute :: nat where
  "minute = 60 * second"

text \<open>\<open>t.ctx.Err() != nil\<close>\<close>

definition cancelled :: "netenv \<Rightarrow> bool" where
  "cancelled env = (case cancel_at env of None \<Rightarrow> False | Some c \<Rightarrow> c \<le> now env)"

text \<open>
  Lines 250-255 and 278-283:
  \<open>select { case <-time.After(time.Minute): continue; case <-t.ctx.Done(): return ... }\<close>.
  \<open>True\<close> when the timer case runs.
\<close>

definition backoff :: "netenv \<Rightarrow> bool \<times> netenv" where
  "backoff env =
     (case cancel_at env of
        None \<Rightarrow> (True, env\<lparr>now := now env + minute\<rparr>)
      | Some c \<Rightarrow>
          if now env + minute < c then (True, env\<lparr>now := now env + minute\<rparr>)
          else if c < now env + minute then (False, env\<lparr>now := max (now env) c\<rparr>)
          else (timer_first env, env\<lparr>now := now env + minute\<rparr>))"

text \<open>One call of the host under \<open>context.WithTimeout(t.ctx, time.Minute)\<close>.\<close>

definition host_call :: "hostcall \<Rightarrow> nat \<times> bool \<Rightarrow> netenv \<Rightarrow> netenv" where
  "host_call c r env =
     env\<lparr>now := now env + fst r, replies := tl (replies env),
         calls := calls env @ [(c, now env)]\<rparr>"

function connect :: "netenv \<Rightarrow> (error option \<times> netenv) option" where
  "connect env =
     (case replies env of
        [] \<Rightarrow> None
      | r # rs \<Rightarrow>
          if \<not> snd r then
            if cancelled (host_call Connect r env) then Some (Some HostError, host_call Connect r env)
            else if fst (backoff (host_call Connect r env))
                 then connect (snd (backoff (host_call Connect r env)))
                 else Some (Some CtxError, snd (backoff (host_call Connect r env)))
          else Some (None, host_call Connect r env))"
  by pat_completeness auto
termination
  by (relation "measure (\<lambda>env. length (replies env))")
     (auto simp: backoff_def host_call_def split: option.splits if_splits)

function openStream :: "netenv \<Rightarrow> ((error + nat) \<times> netenv) option" where
  "openStream env =
     (case connect env of
        None \<Rightarrow> None
      | Some (Some e, env1) \<Rightarrow> Some (Inl e, env1)
      | Some (None, env1) \<Rightarrow>
          (case replies env1 of
             [] \<Rightarrow> None
           | r # rs \<Rightarrow>
               if \<not> snd r then
                 if cancelled (host_call NewStream r env1)
                 then Some (Inl HostError, host_call NewStream r env1)
                 else if fst (backoff (host_call NewStream r env1))
                      then openStream (snd (backoff (host_call NewStream r env1)))
                      else Some (Inl CtxError, snd (backoff (host_call NewStream r env1)))
               else Some (Inr (opened env1),
                          (host_call NewStream r env1)\<lparr>opened := Suc (opened env1)\<rparr>)))"
  by pat_completeness auto
termination
proof (relation "measure (\<lambda>env. length (replies env))")
  \<comment> \<open>\<open>connect\<close> uses up at least one reply of the host\<close>
  have consumes: "connect env = Some (r, env') \<Longrightarrow> length (replies env') < length (replies env)"
    for env r env'
  proof (induction env rule: connect.induct)
    case (1 env)
    show ?case
    proof (cases "replies env")
      case Nil
      with "1.prems" show ?thesis by simp
    next
      case (Cons x xs)
      let ?e = "host_call Connect x env"
      have len: "length (replies ?e) < length (replies env)"
        using Cons by (simp add: host_call_def)
      have bk: "replies (snd (backoff ?e)) = replies ?e"
        by (simp add: backoff_def split: option.splits)
      show ?thesis
      proof (cases "\<not> snd x \<and> \<not> cancelled ?e \<and> fst (backoff ?e)")
        case True
        with "1.prems" Cons have "connect (snd (backoff ?e)) = Some (r, env')" by simp
        with "1.IH"[OF Cons] True
        have "length (replies env') < length (replies (snd (backoff ?e)))" by simp
        with len bk show ?thesis by simp
      next
        case False
        with "1.prems" Cons len bk show ?thesis by (auto split: if_splits)
      qed
    qed
  qed
  fix env x2 x y x2a r rs
  assume a: "connect env = Some x2" "(x, y) = x2" "x = None" and rs: "replies y = r # rs"
  then have "length (replies y) < length (replies env)"
    using consumes[of env None y] by simp
  with rs show "(snd (backoff (host_call NewStream r y)), env) \<in> measure (\<lambda>env. length (replies env))"
    by (simp add: backoff_def host_call_def split: option.splits)
qed simp

declare connect.simps [simp del] openStream.simps [simp del]

subsection \<open>The write loop (lines 166-237)\<close>

datatype rpc =
    ROpen              \<comment> \<open>line 169: \<open>s, err := t.openStream()\<close>\<close>
  | RRecv              \<comment> \<open>line 181\<close>
  | RClear bool nat    \<comment> \<open>lines 184-186 at index \<open>i\<close>\<close>
  | RSleep bool        \<comment> \<open>line 189\<close>
  | RSwap bool         \<comment> \<open>lines 191-195\<close>
  | RWrite bool        \<comment> \<open>lines 197-207\<close>
  | RFlush bool        \<comment> \<open>lines 209-213\<close>
  | REnd bool          \<comment> \<open>label \<open>end\<close>, lines 216-227\<close>
  | RReopen            \<comment> \<open>lines 228-234\<close>
  | RDone              \<comment> \<open>returned\<close>

text \<open>What the loop does to the network, in order.\<close>

datatype 'e netop =
    NWriteMsg nat "'e option list" bool   \<comment> \<open>stream under the compressor, batch, success\<close>
  | NFlush nat bool
  | NReset nat                            \<comment> \<open>\<open>s.Reset()\<close>\<close>
  | NGzipClose nat                        \<comment> \<open>\<open>gzipW.Close()\<close>\<close>
  | NFullClose nat                        \<comment> \<open>\<open>helpers.FullClose(s)\<close>\<close>
  | NGzipReset nat                        \<comment> \<open>\<open>gzipW.Reset(s)\<close>\<close>

record 'e remote = "'e sink" +
  net :: netenv                  \<comment> \<open>\<open>t.ctx\<close>, \<open>t.host\<close> and the clock\<close>
  rpc :: rpc
  strm :: "nat option"           \<comment> \<open>the loop's \<open>s\<close>; \<open>None\<close> is \<open>nil\<close>\<close>
  err :: "error option"          \<comment> \<open>the loop's \<open>err\<close>\<close>
  gzipW :: nat                   \<comment> \<open>the stream the compressor writes to\<close>
  wire :: "'e netop list"        \<comment> \<open>history of network operations\<close>

text \<open>
  Lines 160-164. \<open>new_remote\<close> is the struct of line 161 with the goroutine started by
  \<open>go tr.doWrite()\<close> before its first statement; the result is the pair (tracer, error) of
  the source.
\<close>

definition new_remote :: "netenv \<Rightarrow> 'e remote" where
  "new_remote env =
     \<lparr>heap = [], ch = make_chan, buf = nil_slice,
      lbuf = nil_slice, sending = 0, errlog = 0, batches = [],
      net = env, rpc = ROpen, strm = None, err = None, gzipW = 0, wire = []\<rparr>"

definition NewRemoteTracer :: "netenv \<Rightarrow> 'e remote option \<times> error option" where
  "NewRemoteTracer env = (Some (new_remote env), None)"

definition remote_step :: "'e remote \<Rightarrow> 'e remote outcome" where
  "remote_step s =
     (case rpc s of
        ROpen \<Rightarrow>
          (case openStream (net s) of
             None \<Rightarrow> Disabled
           | Some (Inl e, env) \<Rightarrow>
               Next (s\<lparr>net := env, strm := None, err := Some e, errlog := Suc (errlog s),
                       rpc := RDone\<rparr>)
           | Some (Inr sid, env) \<Rightarrow>
               Next (s\<lparr>net := env, strm := Some sid, err := None, gzipW := sid, rpc := RRecv\<rparr>))
      | RRecv \<Rightarrow>
          (case recv (ch s) of
             None \<Rightarrow> Disabled
           | Some (ok, c) \<Rightarrow> Next (s\<lparr>ch := c, rpc := RClear ok 0\<rparr>))
      | RClear ok i \<Rightarrow>
          if i < len (lbuf s)
          then Next (s\<lparr>heap := set_nil (heap s) (lbuf s) i, rpc := RClear ok (Suc i)\<rparr>)
          else Next (s\<lparr>rpc := RSleep ok\<rparr>)
      | RSleep ok \<Rightarrow> Next (s\<lparr>net := (net s)\<lparr>now := now (net s) + second\<rparr>, rpc := RSwap ok\<rparr>)
      | RSwap ok \<Rightarrow> Next ((exchange s)\<lparr>rpc := RWrite ok\<rparr>)
      | RWrite ok \<Rightarrow> if len (lbuf s) = 0 then Next (s\<lparr>rpc := REnd ok\<rparr>) else Disabled
      | RFlush ok \<Rightarrow> Disabled
      | REnd ok \<Rightarrow>
          if \<not> ok then
            (case strm s of
               None \<Rightarrow> Panic
             | Some sid \<Rightarrow>
                 if err s \<noteq> None
                 then Next (s\<lparr>wire := wire s @ [NReset sid], rpc := RDone\<rparr>)
                 else Next (s\<lparr>wire := wire s @ [NGzipClose (gzipW s), NFullClose sid],
                             rpc := RDone\<rparr>))
          else if err s \<noteq> None
          then (case strm s of
                  None \<Rightarrow> Panic
                | Some sid \<Rightarrow> Next (s\<lparr>wire := wire s @ [NReset sid], rpc := RReopen\<rparr>))
          else Next (s\<lparr>rpc := RRecv\<rparr>)
      | RReopen \<Rightarrow>
          (case openStream (net s) of
             None \<Rightarrow> Disabled
           | Some (Inl e, env) \<Rightarrow>
               Next (s\<lparr>net := env, strm := None, err := Some e, errlog := Suc (errlog s),
                       rpc := RDone\<rparr>)
           | Some (Inr sid, env) \<Rightarrow>
               Next (s\<lparr>net := env, strm := Some sid, err := None, gzipW := sid,
                       wire := wire s @ [NGzipReset sid], rpc := RRecv\<rparr>))
      | RDone \<Rightarrow> Disabled)"

text \<open>Lines 201-207: \<open>batch.Batch = buf; err = w.WriteMsg(&batch)\<close>.\<close>

definition remote_write :: "bool \<Rightarrow> 'e remote \<Rightarrow> 'e remote outcome" where
  "remote_write good s =
     (case rpc s of
        RWrite ok \<Rightarrow>
          if len (lbuf s) = 0 then Disabled
          else if good
          then Next (s\<lparr>wire := wire s @ [NWriteMsg (gzipW s) (cells (heap s) (lbuf s)) True],
                      err := None, rpc := RFlush ok\<rparr>)
          else Next (s\<lparr>wire := wire s @ [NWriteMsg (gzipW s) (cells (heap s) (lbuf s)) False],
                      err := Some IOError, errlog := Suc (errlog s), rpc := REnd ok\<rparr>)
      | _ \<Rightarrow> Disabled)"

text \<open>Lines 209-213: \<open>err = gzipW.Flush()\<close>.\<close>

definition remote_flush :: "bool \<Rightarrow> 'e remote \<Rightarrow> 'e remote outcome" where
  "remote_flush good s =
     (case rpc s of
        RFlush ok \<Rightarrow>
          if good
          then Next (s\<lparr>wire := wire s @ [NFlush (gzipW s) True], err := None, rpc := REnd ok\<rparr>)
          else Next (s\<lparr>wire := wire s @ [NFlush (gzipW s) False], err := Some IOError,
                      errlog := Suc (errlog s), rpc := REnd ok\<rparr>)
      | _ \<Rightarrow> Disabled)"

fun rstep :: "'e action \<Rightarrow> 'e remote \<Rightarrow> 'e remote outcome" where
  "rstep Loop s = remote_step s"
| "rstep (WriteMsg good) s = remote_write good s"
| "rstep (Flush good) s = remote_flush good s"
| "rstep (Tick d) s = Next (s\<lparr>net := (net s)\<lparr>now := now (net s) + d\<rparr>\<rparr>)"
| "rstep a s = producer a s"

section \<open>Notions used in the properties\<close>

subsection \<open>Slices in the store\<close>

text \<open>
  A slice that points into the store: its backing array exists and has the length
  of the capacity. The nil slice has no array.
\<close>

definition wf_slice :: "'e heap \<Rightarrow> slice \<Rightarrow> bool" where
  "wf_slice h s =
     (case arr s of
        None \<Rightarrow> len s = 0 \<and> cap s = 0
      | Some a \<Rightarrow> a < length h \<and> length (h ! a) = cap s \<and> len s \<le> cap s)"

text \<open>
  Two slices on different backing arrays.
\<close>

definition disj :: "slice \<Rightarrow> slice \<Rightarrow> bool" where
  "disj r s \<longleftrightarrow> arr r = None \<or> arr r \<noteq> arr s"

subsection \<open>Invariants of the sinks\<close>

text \<open>
  Both slices are well formed in the store and never share a backing array: the producers
  write through \<open>t.buf\<close> only, the loop reads and clears through its own \<open>buf\<close> only.
\<close>

definition sinv :: "('e, 'z) sink_scheme \<Rightarrow> bool" where
  "sinv s \<longleftrightarrow>
     wf_slice (heap s) (buf s) \<and> wf_slice (heap s) (lbuf s) \<and> disj (lbuf s) (buf s) \<and>
     queued (ch s) \<le> 1"

text \<open>Everything the loop has taken so far, followed by what \<open>t.buf\<close> holds.\<close>

definition taken :: "('e, 'z) sink_scheme \<Rightarrow> 'e option list" where
  "taken s = concat (batches s) @ cells (heap s) (buf s)"

text \<open>
  The events an action, and a schedule, append.
\<close>

fun appended :: "'e action \<Rightarrow> 'e option list" where
  "appended (TraceAppend e) = [Some e]"
| "appended _ = []"

fun enqueued :: "'e action list \<Rightarrow> 'e list" where
  "enqueued [] = []"
| "enqueued (TraceAppend e # as) = e # enqueued as"
| "enqueued (a # as) = enqueued as"

text \<open>What the loop still has to encode of the batch it holds.\<close>

definition todo :: "'e filesink \<Rightarrow> 'e option list" where
  "todo s =
     (case pc s of
        FRange ok i \<Rightarrow> drop i (cells (heap s) (lbuf s))
      | FClear ok i \<Rightarrow> drop (Suc i) (cells (heap s) (lbuf s))
      | _ \<Rightarrow> [])"

text \<open>
  File sinks: the encode calls so far and what is left of the batch held by the loop make
  up the batches taken so far.
\<close>

definition finv :: "'e filesink \<Rightarrow> bool" where
  "finv s \<longleftrightarrow> sinv s \<and> encoded s @ todo s = concat (batches s)"

text \<open>After the receive that saw the channel closed.\<close>

fun closing :: "fpc \<Rightarrow> bool" where
  "closing FRecv = False"
| "closing (FSwap ok) = (\<not> ok)"
| "closing (FRange ok i) = (\<not> ok)"
| "closing (FClear ok i) = (\<not> ok)"
| "closing FDone = True"

text \<open>
  File sinks: the loop index stays within the batch, the file is closed exactly when the
  loop has returned, and the loop is closing only on a closed channel.
\<close>

definition pcinv :: "'e filesink \<Rightarrow> bool" where
  "pcinv s \<longleftrightarrow>
     (case pc s of
        FRange ok i \<Rightarrow> i \<le> len (lbuf s)
      | FClear ok i \<Rightarrow> i < len (lbuf s)
      | _ \<Rightarrow> True) \<and>
     wcloses s = (if pc s = FDone then 1 else 0) \<and>
     (closing (pc s) \<longrightarrow> closed (ch s))"

text \<open>After the last exchange the shared buffer stays empty unless a producer appends.\<close>

definition drained :: "'e filesink \<Rightarrow> bool" where
  "drained s \<longleftrightarrow> (closing (pc s) \<and> (\<forall>ok. pc s \<noteq> FSwap ok) \<longrightarrow> cells (heap s) (buf s) = [])"

text \<open>
  The loop's \<open>buf\<close> still holds, from the index of the loop on, the batch of the last
  exchange: appends by producers and the clearing of earlier entries do not touch it.
\<close>

definition held :: "'e filesink \<Rightarrow> bool" where
  "held s \<longleftrightarrow>
     (case pc s of
        FRange ok i \<Rightarrow>
          batches s \<noteq> [] \<and> length (last (batches s)) = len (lbuf s) \<and>
          drop i (cells (heap s) (lbuf s)) = drop i (last (batches s))
      | FClear ok i \<Rightarrow>
          batches s \<noteq> [] \<and> length (last (batches s)) = len (lbuf s) \<and>
          drop (Suc i) (cells (heap s) (lbuf s)) = drop (Suc i) (last (batches s))
      | _ \<Rightarrow> True)"

text \<open>Without encode errors the file holds one record for each encode call.\<close>

definition intact :: "'e filesink \<Rightarrow> bool" where
  "intact s \<longleftrightarrow> w s = map (frame_of (fmt s)) (encoded s) \<and> \<not> encerr s"



text \<open>
  A write or a flush that returned an error.
\<close>

fun failed :: "'e netop \<Rightarrow> bool" where
  "failed (NWriteMsg sid b good) = (\<not> good)"
| "failed (NFlush sid good) = (\<not> good)"
| "failed _ = False"

text \<open>The last network operation was a write or a flush that returned an error.\<close>

definition last_failed :: "'e netop list \<Rightarrow> bool" where
  "last_failed ops = (case rev ops of [] \<Rightarrow> False | x # _ \<Rightarrow> failed x)"

text \<open>The batches handed to \<open>WriteMsg\<close>, in order.\<close>

fun written :: "'e netop list \<Rightarrow> 'e option list list" where
  "written [] = []"
| "written (NWriteMsg sid b good # ops) = b # written ops"
| "written (x # ops) = written ops"

text \<open>
  Remote sink: \<open>err\<close> is set exactly after a failed write or flush, until the stream has
  been opened again.
\<close>

definition err_ok :: "'e remote \<Rightarrow> bool" where
  "err_ok s =
     (case rpc s of
        ROpen \<Rightarrow> wire s = []
      | REnd ok \<Rightarrow> (err s \<noteq> None) = last_failed (wire s)
      | RReopen \<Rightarrow> err s \<noteq> None
      | RDone \<Rightarrow> True
      | _ \<Rightarrow> err s = None \<and> \<not> last_failed (wire s))"

text \<open>
  Remote sink: once opened, the stream is the one the compressor writes to.
\<close>

definition strm_ok :: "'e remote \<Rightarrow> bool" where
  "strm_ok s \<longleftrightarrow> rpc s = ROpen \<or> rpc s = RDone \<or> strm s = Some (gzipW s)"

text \<open>
  Remote sink: every non-empty batch taken has been handed to \<open>WriteMsg\<close> once, in order;
  at the length test the batch just taken is still to come.
\<close>

definition writes_ok :: "'e remote \<Rightarrow> bool" where
  "writes_ok s =
     (case rpc s of
        RWrite ok \<Rightarrow>
          batches s \<noteq> [] \<and> last (batches s) = cells (heap s) (lbuf s) \<and>
          written (wire s) = filter (\<lambda>b. b \<noteq> []) (butlast (batches s))
      | _ \<Rightarrow> written (wire s) = filter (\<lambda>b. b \<noteq> []) (batches s))"

definition rinv :: "'e remote \<Rightarrow> bool" where
  "rinv s \<longleftrightarrow> sinv s \<and> err_ok s \<and> strm_ok s \<and> writes_ok s"

subsection \<open>Progress of the write loops\<close>

text \<open>
  The actions of the write loop of a file sink, and of the remote sink.
\<close>

fun is_loop :: "'e action \<Rightarrow> bool" where
  "is_loop Loop = True"
| "is_loop (Encode g) = True"
| "is_loop _ = False"


text \<open>
  The number of steps the loop still takes if no producer moves any more: two for each
  event it holds, three for each iteration to come.
\<close>

definition steps_left :: "'e filesink \<Rightarrow> nat" where
  "steps_left s =
     (let later = 3 + 3 * queued (ch s) + 2 * len (buf s) in
      case pc s of
        FRecv \<Rightarrow> later
      | FSwap ok \<Rightarrow> 2 + 2 * len (buf s) + (if ok then 3 + 3 * queued (ch s) else 0)
      | FRange ok i \<Rightarrow> 2 * (len (lbuf s) - i) + 1 + (if ok then later else 0)
      | FClear ok i \<Rightarrow> 2 * (len (lbuf s) - i) + (if ok then later else 0)
      | FDone \<Rightarrow> 0)"

text \<open>
  The steps of the loop that an action of a producer can add.
\<close>

fun cost :: "'e action \<Rightarrow> nat" where
  "cost (TraceAppend e) = 2"
| "cost TraceSignal = 3"
| "cost _ = 0"



subsection \<open>The wake signal\<close>

text \<open>
  What C4 says of a state \<open>s\<close> of a sink with step function \<open>st\<close>: at most one wake is
  pending; a producer can always append, and the event is then in \<open>t.buf\<close>; a producer that
  has appended is never blocked at the \<open>select\<close>; and when the slot is full its send changes
  nothing but its own position (on a closed channel it panics instead).
\<close>

definition coalescing ::
  "('e action \<Rightarrow> ('e, 'z) sink_scheme \<Rightarrow> ('e, 'z) sink_scheme outcome) \<Rightarrow>
   ('e, 'z) sink_scheme \<Rightarrow> bool" where
  "coalescing st s \<longleftrightarrow>
     queued (ch s) \<le> 1 \<and>
     (\<forall>e. \<exists>s1. st (TraceAppend e) s = Next s1 \<and> ch s1 = ch s \<and>
              cells (heap s1) (buf s1) = cells (heap s) (buf s) @ [Some e]) \<and>
     (0 < sending s \<longrightarrow>
        st TraceSignal s \<noteq> Disabled \<and>
        (queued (ch s) = 1 \<longrightarrow>
           st TraceSignal s =
             (if closed (ch s) then Panic else Next (s\<lparr>sending := sending s - 1\<rparr>))))"

subsection \<open>Attempts and backoff\<close>

text \<open>The context is not cancelled up to and including time \<open>t\<close>.\<close>

definition alive_at :: "netenv \<Rightarrow> nat \<Rightarrow> bool" where
  "alive_at env t = (case cancel_at env of None \<Rightarrow> True | Some c \<Rightarrow> t < c)"

text \<open>
  The host calls of a run of failed attempts that starts at time \<open>t\<close>: each attempt starts
  one minute after the failure of the one before. For \<open>connect\<close>, \<open>ds\<close> are the times the
  \<open>Connect\<close> calls take; for \<open>openStream\<close>, each round is a \<open>Connect\<close> that succeeds and a
  \<open>NewStream\<close> that fails.
\<close>

fun connect_attempts :: "nat \<Rightarrow> nat list \<Rightarrow> (hostcall \<times> nat) list" where
  "connect_attempts t [] = []"
| "connect_attempts t (d # ds) = (Connect, t) # connect_attempts (t + d + minute) ds"

fun open_attempts :: "nat \<Rightarrow> (nat \<times> nat) list \<Rightarrow> (hostcall \<times> nat) list" where
  "open_attempts t [] = []"
| "open_attempts t ((d1, d2) # ps) =
     (Connect, t) # (NewStream, t + d1) # open_attempts (t + d1 + d2 + minute) ps"

fun open_rounds :: "(nat \<times> nat) list \<Rightarrow> (nat \<times> bool) list" where
  "open_rounds [] = []"
| "open_rounds ((d1, d2) # ps) = (d1, True) # (d2, False) # open_rounds ps"

fun rounds_time :: "(nat \<times> nat) list \<Rightarrow> nat" where
  "rounds_time [] = 0"
| "rounds_time ((d1, d2) # ps) = d1 + d2 + minute + rounds_time ps"

subsection \<open>Concrete runs\<close>

text \<open>
  Schedules and environments on which the theorems are instantiated.
\<close>

definition sched_close :: "nat action list" where
  "sched_close =
     [TraceAppend 1, TraceSignal, Loop, TraceAppend 2, Loop, Encode Written, TraceSignal, Loop,
      Encode Written, TraceAppend 3, TraceSignal, Loop, CloseCall, Loop, Loop, Loop,
      Encode Written, Loop, Loop, Loop, Loop, Loop]"

definition sched_pending :: "nat action list" where
  "sched_pending =
     [TraceAppend 1, TraceSignal, Loop, TraceAppend 2, TraceSignal, TraceAppend 3, TraceSignal,
      CloseCall]"






definition sched_file :: "nat action list" where
  "sched_file =
     [TraceAppend 1, TraceSignal, TraceAppend 2, Loop, Loop, TraceAppend 3, Encode Written,
      TraceSignal, Loop, Encode WriteError, TraceSignal, Loop, TraceAppend 4, Loop, Loop]"

definition sched_full :: "nat action list" where
  "sched_full = [TraceAppend 1, TraceSignal, TraceAppend 2]"

definition env_up :: netenv where
  "env_up = \<lparr>now = 0, cancel_at = None, timer_first = True,
              replies = [(2, True), (3, True), (4, True), (5, True)], opened = 0, calls = []\<rparr>"

definition env_up1 :: netenv where
  "env_up1 = \<lparr>now = 5, cancel_at = None, timer_first = True,
               replies = [(4, True), (5, True)], opened = 1,
               calls = [(Connect, 0), (NewStream, 2)]\<rparr>"

definition env_up2 :: netenv where
  "env_up2 = \<lparr>now = 5 + second + 9, cancel_at = None, timer_first = True, replies = [],
               opened = 2,
               calls = [(Connect, 0), (NewStream, 2), (Connect, 5 + second), 
                        (NewStream, 5 + second + 4)]\<rparr>"

text \<open>
  A host whose answers are \<open>rs\<close>, under a context cancelled at \<open>c\<close>.
\<close>

definition env_down :: "nat option \<Rightarrow> (nat \<times> bool) list \<Rightarrow> netenv" where
  "env_down c rs =
     \<lparr>now = 100, cancel_at = c, timer_first = True, replies = rs, opened = 0, calls = []\<rparr>"

definition sched_remote :: "nat action list" where
  "sched_remote =
     [TraceAppend 1, Loop, TraceSignal, TraceAppend 2, Loop, Loop, Loop, TraceSignal,
      TraceAppend 3, Loop, TraceAppend 4, TraceSignal, WriteMsg True, Flush True, Loop, Loop,
      Loop, Loop, Loop, Loop, Loop]"



definition sched_fail :: "nat action list" where
  "sched_fail =
     [Loop, TraceAppend 1, TraceSignal, Loop, Loop, Loop, Loop, WriteMsg False]"

definition sched_empty :: "nat action list" where
  "sched_empty =
     [Loop, TraceAppend 1, TraceSignal, Loop, TraceAppend 2, Loop, Loop, Loop, TraceSignal,
      WriteMsg True, Flush True, Loop, Loop, Loop, Loop, Loop, Loop, Loop]"

section \<open>Properties\<close>

subsection \<open>Slices in the store: \<open>append\<close>, \<open>s[:0]\<close>, \<open>s[i] = nil\<close>\<close>

lemma cap_lt_growcap: "c < growcap c"
  by (simp add: growcap_def)

lemma length_cells: "wf_slice h s \<Longrightarrow> length (cells h s) = len s"
  by (auto simp: wf_slice_def cells_def split: option.splits)

lemma go_append_wf:
  assumes "wf_slice h s" "go_append h s v = (h', s')"
  shows "wf_slice h' s'"
  using assms cap_lt_growcap[of "cap s"]
  by (auto simp: go_append_def wf_slice_def Let_def cells_def nth_append nth_list_update
           split: option.splits if_splits)

lemma go_append_cells:
  assumes "wf_slice h s" "go_append h s v = (h', s')"
  shows "cells h' s' = cells h s @ [v]"
  using assms cap_lt_growcap[of "cap s"]
  by (auto simp: go_append_def wf_slice_def Let_def cells_def nth_append nth_list_update
           take_Suc_conv_app_nth
           split: option.splits if_splits)

lemma go_append_other:
  assumes "wf_slice h s" "wf_slice h r" "disj r s" "go_append h s v = (h', s')"
  shows "cells h' r = cells h r \<and> wf_slice h' r \<and> disj r s' \<and> disj s' r"
  using assms
  by (auto simp: go_append_def wf_slice_def Let_def cells_def nth_append nth_list_update disj_def
           split: option.splits if_splits)

lemma set_nil_wf:
  assumes wf: "wf_slice h r"
  shows "wf_slice (set_nil h s i) r"
proof (cases "arr s")
  case None
  with wf show ?thesis by (simp add: set_nil_def)
next
  case (Some a)
  have "length ((h[a := (h ! a)[i := None]]) ! b) = length (h ! b)" if "b < length h" for b
    using that by (cases "a = b") simp_all
  with wf Some show ?thesis
    by (auto simp: set_nil_def wf_slice_def split: option.splits)
qed

lemma set_nil_other: "disj r s \<Longrightarrow> wf_slice h r \<Longrightarrow> cells (set_nil h s i) r = cells h r"
  by (auto simp: set_nil_def wf_slice_def cells_def disj_def nth_list_update split: option.splits)

lemma set_nil_drop:
  "wf_slice h s \<Longrightarrow> drop (Suc i) (cells (set_nil h s i) s) = drop (Suc i) (cells h s)"
  by (auto simp: set_nil_def wf_slice_def cells_def nth_list_update drop_take split: option.splits)

lemma disj_sym: "disj r s \<Longrightarrow> disj s r"
  by (auto simp: disj_def)

lemma wf_reslice0: "wf_slice h s \<Longrightarrow> wf_slice h (reslice0 s)"
  by (auto simp: wf_slice_def reslice0_def split: option.splits)

lemma cells_reslice0: "cells h (reslice0 s) = []"
  by (simp add: cells_def reslice0_def split: option.splits)

lemma disj_reslice0: "disj r (reslice0 s) = disj r s" "disj (reslice0 s) r = disj s r"
  by (simp_all add: disj_def reslice0_def)

subsection \<open>Invariant shared by all sinks\<close>

lemma appended_enqueued: "concat (map appended as) = map Some (enqueued as)"
  by (induction as rule: enqueued.induct) simp_all

lemma Trace_append_effect:
  assumes "sinv s"
  shows "sinv (Trace_append e s) \<and> taken (Trace_append e s) = taken s @ [Some e] \<and>
         cells (heap (Trace_append e s)) (lbuf s) = cells (heap s) (lbuf s) \<and>
         cells (heap (Trace_append e s)) (buf (Trace_append e s)) = cells (heap s) (buf s) @ [Some e] \<and>
         (\<exists>h b. Trace_append e s = s\<lparr>heap := h, buf := b\<rparr>)"
proof -
  obtain h b where ga: "go_append (heap s) (buf s) (Some e) = (h, b)"
    by (cases "go_append (heap s) (buf s) (Some e)")
  then have s': "Trace_append e s = s\<lparr>heap := h, buf := b\<rparr>"
    by (simp add: Trace_append_def)
  from assms have wfb: "wf_slice (heap s) (buf s)" and wfl: "wf_slice (heap s) (lbuf s)"
    and dj: "disj (lbuf s) (buf s)" and q: "queued (ch s) \<le> 1"
    by (simp_all add: sinv_def)
  from go_append_other[OF wfb wfl dj ga] go_append_wf[OF wfb ga] go_append_cells[OF wfb ga] q
  show ?thesis
    unfolding s' by (auto simp: sinv_def taken_def)
qed

lemma producer_effect:
  assumes "sinv s" "producer a s = Next s'"
  shows "sinv s' \<and> taken s' = taken s @ appended a \<and>
         cells (heap s') (lbuf s') = cells (heap s) (lbuf s) \<and>
         (\<exists>h b c n. s' = s\<lparr>heap := h, ch := c, buf := b, sending := n\<rparr>)"
proof (cases a)
  case (TraceAppend e)
  from Trace_append_effect[OF assms(1), of e] obtain h b
    where eff: "sinv (Trace_append e s)" "taken (Trace_append e s) = taken s @ [Some e]"
      "cells (heap (Trace_append e s)) (lbuf s) = cells (heap s) (lbuf s)"
      and upd: "Trace_append e s = s\<lparr>heap := h, buf := b\<rparr>"
    by blast
  from assms(2) TraceAppend have s': "s' = (Trace_append e s)\<lparr>sending := Suc (sending s)\<rparr>"
    by simp
  have "s' = s\<lparr>heap := h, ch := ch s, buf := b, sending := Suc (sending s)\<rparr>"
    unfolding s' upd by simp
  then have ex: "\<exists>h b c n. s' = s\<lparr>heap := h, ch := c, buf := b, sending := n\<rparr>"
    by blast
  from eff have "sinv s' \<and> taken s' = taken s @ [Some e] \<and>
      cells (heap s') (lbuf s') = cells (heap s) (lbuf s)"
    unfolding s' upd by (simp add: sinv_def taken_def)
  with ex TraceAppend show ?thesis by simp
next
  case TraceSignal
  with assms(2) obtain c where c: "nb_send (ch s) = Some c"
    and s': "s' = s\<lparr>ch := c, sending := sending s - 1\<rparr>"
    by (auto simp: Trace_signal_def split: if_splits option.splits)
  from c assms(1) have "queued c \<le> 1"
    by (auto simp: nb_send_def sinv_def split: if_splits)
  moreover have "s' = s\<lparr>heap := heap s, ch := c, buf := buf s, sending := sending s - 1\<rparr>"
    unfolding s' by simp
  then have "\<exists>h b c n. s' = s\<lparr>heap := h, ch := c, buf := b, sending := n\<rparr>"
    by blast
  ultimately show ?thesis
    using assms(1) TraceSignal unfolding s' by (simp add: sinv_def taken_def)
next
  case CloseCall
  with assms(2) obtain c where c: "close_chan (ch s) = Some c" and s': "s' = s\<lparr>ch := c\<rparr>"
    by (auto simp: Close_def split: option.splits)
  from c have "queued c = queued (ch s)"
    by (auto simp: close_chan_def split: if_splits)
  moreover have "s' = s\<lparr>heap := heap s, ch := c, buf := buf s, sending := sending s\<rparr>"
    unfolding s' by simp
  then have "\<exists>h b c n. s' = s\<lparr>heap := h, ch := c, buf := b, sending := n\<rparr>"
    by blast
  ultimately show ?thesis
    using assms(1) CloseCall unfolding s' by (simp add: sinv_def taken_def)
qed (use assms(2) in simp_all)

lemma exchange_effect:
  assumes "sinv s"
  shows "sinv (exchange s) \<and> taken (exchange s) = taken s \<and>
         cells (heap (exchange s)) (lbuf (exchange s)) = cells (heap s) (buf s) \<and>
         cells (heap (exchange s)) (buf (exchange s)) = [] \<and>
         batches (exchange s) = batches s @ [cells (heap s) (buf s)] \<and>
         len (lbuf (exchange s)) = len (buf s)"
  using assms
  by (simp add: exchange_def swap_buffers_def sinv_def taken_def wf_reslice0 cells_reslice0
      disj_reslice0 disj_sym)

lemma clear_effect:
  assumes "sinv s"
  shows "sinv (s\<lparr>heap := set_nil (heap s) (lbuf s) i\<rparr>) \<and>
         taken (s\<lparr>heap := set_nil (heap s) (lbuf s) i\<rparr>) = taken s \<and>
         drop (Suc i) (cells (set_nil (heap s) (lbuf s) i) (lbuf s)) =
           drop (Suc i) (cells (heap s) (lbuf s))"
proof -
  from assms have wfb: "wf_slice (heap s) (buf s)" and wfl: "wf_slice (heap s) (lbuf s)"
    and dj: "disj (lbuf s) (buf s)" and q: "queued (ch s) \<le> 1"
    by (simp_all add: sinv_def)
  from set_nil_wf[OF wfb] set_nil_wf[OF wfl] set_nil_other[OF disj_sym[OF dj] wfb] dj q
    set_nil_drop[OF wfl]
  show ?thesis by (simp add: sinv_def taken_def)
qed

lemma recv_queued: "recv c = Some (ok, c') \<Longrightarrow> queued c' \<le> queued c \<and> closed c' = closed c"
  by (auto simp: recv_def split: if_splits)

subsection \<open>File sinks\<close>

lemma finv_open: "finv (open_tracer f)"
  by (simp add: finv_def sinv_def open_tracer_def wf_slice_def nil_slice_def disj_def todo_def
      make_chan_def)

lemma todo_eqI:
  "pc s' = pc s \<Longrightarrow> cells (heap s') (lbuf s') = cells (heap s) (lbuf s) \<Longrightarrow> todo s' = todo s"
  by (simp add: todo_def split: fpc.splits)

lemma finv_producer:
  assumes "finv s" "producer a s = Next s'"
  shows "finv s' \<and> taken s' = taken s @ appended a"
proof -
  from assms(1) have si: "sinv s" and enc: "encoded s @ todo s = concat (batches s)"
    by (simp_all add: finv_def)
  from producer_effect[OF si assms(2)] obtain h b c n
    where eff: "sinv s'" "taken s' = taken s @ appended a"
      "cells (heap s') (lbuf s') = cells (heap s) (lbuf s)"
      and upd: "s' = s\<lparr>heap := h, ch := c, buf := b, sending := n\<rparr>"
    by blast
  from upd have same: "pc s' = pc s" "encoded s' = encoded s" "batches s' = batches s"
    by simp_all
  from todo_eqI[OF same(1) eff(3)] enc same eff show ?thesis
    by (simp add: finv_def)
qed

lemma finv_Loop:
  assumes "finv s" "doWrite_step s = Next s'"
  shows "finv s' \<and> taken s' = taken s"
proof -
  from assms(1) have si: "sinv s" and enc: "encoded s @ todo s = concat (batches s)"
    by (simp_all add: finv_def)
  show ?thesis
  proof (cases "pc s")
    case FRecv
    with assms(2) obtain ok c where r: "recv (ch s) = Some (ok, c)"
      and s': "s' = s\<lparr>ch := c, pc := FSwap ok\<rparr>"
      by (auto simp: doWrite_step_def split: option.splits)
    from recv_queued[OF r] si enc FRecv show ?thesis
      unfolding s' by (simp add: finv_def sinv_def taken_def todo_def)
  next
    case (FSwap ok)
    with assms(2) have s': "s' = (exchange s)\<lparr>pc := FRange ok 0\<rparr>"
      by (simp add: doWrite_step_def)
    have "encoded (exchange s) = encoded s"
      by (simp add: exchange_def swap_buffers_def)
    with exchange_effect[OF si] enc FSwap show ?thesis
      unfolding s' by (simp add: finv_def sinv_def taken_def todo_def)
  next
    case (FRange ok i)
    from si have "length (cells (heap s) (lbuf s)) = len (lbuf s)"
      by (simp add: sinv_def length_cells)
    with assms FRange show ?thesis
      by (auto simp: doWrite_step_def finv_def sinv_def taken_def todo_def split: if_splits)
  next
    case (FClear ok i)
    with assms(2)
    have s': "s' = s\<lparr>heap := set_nil (heap s) (lbuf s) i, pc := FRange ok (Suc i)\<rparr>"
      by (simp add: doWrite_step_def)
    from clear_effect[OF si, of i] enc FClear show ?thesis
      unfolding s' by (simp add: finv_def sinv_def taken_def todo_def)
  next
    case FDone
    with assms show ?thesis by (simp add: doWrite_step_def)
  qed
qed

lemma finv_Encode:
  assumes "finv s" "doWrite_encode g s = Next s'"
  shows "finv s' \<and> taken s' = taken s"
proof (cases "pc s")
  case (FRange ok i)
  with assms(2) have i: "i < len (lbuf s)"
    by (auto simp: doWrite_encode_def split: if_splits)
  from assms(1) have "length (cells (heap s) (lbuf s)) = len (lbuf s)"
    by (simp add: finv_def sinv_def length_cells)
  with i have "drop i (cells (heap s) (lbuf s)) =
       cells (heap s) (lbuf s) ! i # drop (Suc i) (cells (heap s) (lbuf s))"
    by (simp add: Cons_nth_drop_Suc)
  with assms FRange i show ?thesis
    by (auto simp: doWrite_encode_def finv_def sinv_def taken_def todo_def Let_def
        split: if_splits prod.splits)
qed (use assms in \<open>simp_all add: doWrite_encode_def\<close>)

lemma fstep_producer: "a \<noteq> Loop \<Longrightarrow> (\<forall>g. a \<noteq> Encode g) \<Longrightarrow> fstep a s = producer a s"
  by (cases a) auto

lemma finv_step:
  assumes "finv s" "fstep a s = Next s'"
  shows "finv s' \<and> taken s' = taken s @ appended a"
proof (cases "a = Loop \<or> (\<exists>g. a = Encode g)")
  case True
  then show ?thesis
  proof
    assume "a = Loop"
    with assms finv_Loop[of s s'] show ?thesis by simp
  next
    assume "\<exists>g. a = Encode g"
    then obtain g where "a = Encode g" by blast
    with assms finv_Encode[of s g s'] show ?thesis by simp
  qed
next
  case False
  then have "fstep a s = producer a s" by (simp add: fstep_producer)
  with assms finv_producer[of s a s'] show ?thesis by simp
qed

lemma run_Cons_Next:
  "run st (a # as) s = Next s' \<Longrightarrow> \<exists>s1. st a s = Next s1 \<and> run st as s1 = Next s'"
  by (auto split: outcome.splits)

lemma run_append:
  "run st (as @ bs) s = (case run st as s of Next s' \<Rightarrow> run st bs s' | Disabled \<Rightarrow> Disabled
     | Panic \<Rightarrow> Panic)"
  by (induction as arbitrary: s) (auto split: outcome.splits)

lemma finv_run:
  "finv s \<Longrightarrow> run fstep as s = Next s' \<Longrightarrow>
     finv s' \<and> taken s' = taken s @ concat (map appended as)"
proof (induction as arbitrary: s)
  case Nil
  then show ?case by simp
next
  case (Cons a as)
  from run_Cons_Next[OF Cons.prems(2)] obtain s1
    where st: "fstep a s = Next s1" and rn: "run fstep as s1 = Next s'"
    by blast
  from finv_step[OF Cons.prems(1) st] Cons.IH[OF _ rn] show ?case by simp
qed

lemma taken_open: "taken (open_tracer f) = []"
  by (simp add: taken_def open_tracer_def nil_slice_def cells_def)

lemma finv_reach:
  assumes "run fstep as (open_tracer f) = Next s"
  shows "finv s" "taken s = map Some (enqueued as)"
  using finv_run[OF finv_open assms] by (simp_all add: taken_open appended_enqueued)

text \<open>The loop's \<open>buf\<close> keeps the batch of the last exchange.\<close>

lemma held_step:
  assumes "finv s" "held s" "fstep a s = Next s'"
  shows "held s'"
proof (cases "a = Loop \<or> (\<exists>g. a = Encode g)")
  case False
  then have "fstep a s = producer a s" by (simp add: fstep_producer)
  with assms(3) have pr: "producer a s = Next s'" by simp
  from assms(1) have si: "sinv s" by (simp add: finv_def)
  from producer_effect[OF si pr] obtain h b c n
    where same: "cells (heap s') (lbuf s') = cells (heap s) (lbuf s)"
      and upd: "s' = s\<lparr>heap := h, ch := c, buf := b, sending := n\<rparr>"
    by blast
  from upd have eq: "pc s' = pc s" "lbuf s' = lbuf s" "batches s' = batches s"
    by simp_all
  from assms(2) same eq show ?thesis
    by (simp add: held_def split: fpc.splits)
next
  case True
  from assms(1) have si: "sinv s" by (simp add: finv_def)
  from True show ?thesis
  proof
    assume a: "a = Loop"
    show ?thesis
    proof (cases "pc s")
      case (FSwap ok)
      with a assms(3) have s': "s' = (exchange s)\<lparr>pc := FRange ok 0\<rparr>"
        by (simp add: doWrite_step_def)
      from si have "length (cells (heap s) (buf s)) = len (buf s)"
        by (simp add: sinv_def length_cells)
      with exchange_effect[OF si] show ?thesis
        unfolding s' by (simp add: held_def)
    next
      case (FClear ok i)
      with a assms(3)
      have s': "s' = s\<lparr>heap := set_nil (heap s) (lbuf s) i, pc := FRange ok (Suc i)\<rparr>"
        by (simp add: doWrite_step_def)
      from clear_effect[OF si, of i] assms(2) FClear show ?thesis
        unfolding s' by (simp add: held_def)
    qed (use a assms(3) in \<open>auto simp: doWrite_step_def held_def
          split: option.splits if_splits\<close>)
  next
    assume "\<exists>g. a = Encode g"
    then obtain g where a: "a = Encode g" by blast
    show ?thesis
    proof (cases "pc s")
      case (FRange ok i)
      from assms(2) FRange
      have h: "batches s \<noteq> []" "length (last (batches s)) = len (lbuf s)"
        "drop i (cells (heap s) (lbuf s)) = drop i (last (batches s))"
        by (simp_all add: held_def)
      from h(3) have "drop (Suc i) (cells (heap s) (lbuf s)) = drop (Suc i) (last (batches s))"
        by (metis drop_Suc tl_drop)
      with a assms(3) FRange h(1,2) show ?thesis
        by (auto simp: doWrite_encode_def held_def Let_def split: if_splits prod.splits)
    qed (use a assms(3) in \<open>simp_all add: doWrite_encode_def\<close>)
  qed
qed

lemma held_run: "finv s \<Longrightarrow> held s \<Longrightarrow> run fstep as s = Next s' \<Longrightarrow> held s'"
proof (induction as arbitrary: s)
  case (Cons a as)
  from run_Cons_Next[OF Cons.prems(3)] obtain s1
    where st: "fstep a s = Next s1" and rn: "run fstep as s1 = Next s'"
    by blast
  from finv_step[OF Cons.prems(1) st] held_step[OF Cons.prems(1,2) st] Cons.IH[OF _ _ rn]
  show ?case by simp
qed simp

lemma held_reach:
  assumes "run fstep as (open_tracer f) = Next s"
  shows "held s"
  using held_run[OF finv_open _ assms] by (simp add: held_def open_tracer_def)

subsection \<open>Remote sink\<close>

lemma written_append: "written (xs @ ys) = written xs @ written ys"
  by (induction xs rule: written.induct) simp_all

lemma last_failed_snoc [simp]: "last_failed (ops @ [x]) = failed x"
  by (simp add: last_failed_def)

lemma last_failed_Nil [simp]: "\<not> last_failed []"
  by (simp add: last_failed_def)

lemma rinv_new: "rinv (new_remote env)"
  by (simp add: rinv_def sinv_def err_ok_def strm_ok_def writes_ok_def new_remote_def
      NewRemoteTracer_def wf_slice_def nil_slice_def disj_def make_chan_def)

lemma taken_new: "taken (new_remote env) = []"
  by (simp add: taken_def new_remote_def NewRemoteTracer_def nil_slice_def cells_def)

lemma rest_eqI:
  assumes "rpc s' = rpc s" "err s' = err s" "wire s' = wire s" "strm s' = strm s"
    "gzipW s' = gzipW s" "batches s' = batches s"
    "cells (heap s') (lbuf s') = cells (heap s) (lbuf s)"
  shows "err_ok s' = err_ok s" "strm_ok s' = strm_ok s" "writes_ok s' = writes_ok s"
  using assms by (simp_all add: err_ok_def strm_ok_def writes_ok_def cong: rpc.case_cong)

lemma rinv_producer:
  assumes "rinv s" "producer a s = Next s'"
  shows "rinv s' \<and> taken s' = taken s @ appended a"
proof -
  from assms(1) have si: "sinv s" by (simp add: rinv_def)
  from producer_effect[OF si assms(2)] obtain h b c n
    where eff: "sinv s'" "taken s' = taken s @ appended a"
      "cells (heap s') (lbuf s') = cells (heap s) (lbuf s)"
      and upd: "s' = s\<lparr>heap := h, ch := c, buf := b, sending := n\<rparr>"
    by blast
  from upd have same: "rpc s' = rpc s" "err s' = err s" "wire s' = wire s" "strm s' = strm s"
    "gzipW s' = gzipW s" "batches s' = batches s"
    by simp_all
  from rest_eqI[OF same eff(3)] assms(1) eff show ?thesis
    by (simp add: rinv_def)
qed

lemma rinv_Tick:
  assumes "rinv s"
  shows "rinv (s\<lparr>net := e\<rparr>) \<and> taken (s\<lparr>net := e\<rparr>) = taken s"
proof -
  have "err_ok (s\<lparr>net := e\<rparr>) = err_ok s" "strm_ok (s\<lparr>net := e\<rparr>) = strm_ok s"
    "writes_ok (s\<lparr>net := e\<rparr>) = writes_ok s"
    by (rule rest_eqI; simp)+
  with assms show ?thesis by (simp add: rinv_def sinv_def taken_def)
qed

lemma filter_nonempty_butlast:
  "bs \<noteq> [] \<Longrightarrow> filter (\<lambda>b. b \<noteq> []) bs =
     filter (\<lambda>b. b \<noteq> []) (butlast bs) @ (if last bs = [] then [] else [last bs])"
  by (induction bs rule: rev_induct) simp_all

lemma rinv_Loop:
  assumes "rinv s" "remote_step s = Next s'"
  shows "rinv s' \<and> taken s' = taken s"
proof -
  from assms(1) have si: "sinv s" and eo: "err_ok s" and so: "strm_ok s" and wo: "writes_ok s"
    by (simp_all add: rinv_def)
  show ?thesis
  proof (cases "rpc s")
    case ROpen
    with assms(2) si eo so wo show ?thesis
      by (auto simp: remote_step_def rinv_def sinv_def err_ok_def strm_ok_def writes_ok_def
          taken_def split: option.splits sum.splits)
  next
    case RRecv
    with assms(2) obtain ok c where r: "recv (ch s) = Some (ok, c)"
      and s': "s' = s\<lparr>ch := c, rpc := RClear ok 0\<rparr>"
      by (auto simp: remote_step_def split: option.splits)
    from recv_queued[OF r] si eo so wo RRecv show ?thesis
      unfolding s'
      by (simp add: rinv_def sinv_def err_ok_def strm_ok_def writes_ok_def taken_def)
  next
    case (RClear ok i)
    show ?thesis
    proof (cases "i < len (lbuf s)")
      case True
      with assms(2) RClear
      have s': "s' = s\<lparr>heap := set_nil (heap s) (lbuf s) i, rpc := RClear ok (Suc i)\<rparr>"
        by (simp add: remote_step_def)
      from clear_effect[OF si, of i] eo so wo RClear show ?thesis
        unfolding s'
        by (simp add: rinv_def sinv_def err_ok_def strm_ok_def writes_ok_def taken_def)
    next
      case False
      with assms(2) RClear have s': "s' = s\<lparr>rpc := RSleep ok\<rparr>"
        by (simp add: remote_step_def)
      from si eo so wo RClear show ?thesis
        unfolding s'
        by (simp add: rinv_def sinv_def err_ok_def strm_ok_def writes_ok_def taken_def)
    qed
  next
    case (RSleep ok)
    with assms(2) si eo so wo show ?thesis
      by (auto simp: remote_step_def rinv_def sinv_def err_ok_def strm_ok_def writes_ok_def
          taken_def)
  next
    case (RSwap ok)
    with assms(2) have s': "s' = (exchange s)\<lparr>rpc := RWrite ok\<rparr>"
      by (simp add: remote_step_def)
    have same: "err (exchange s) = err s" "wire (exchange s) = wire s"
      "strm (exchange s) = strm s" "gzipW (exchange s) = gzipW s"
      by (simp_all add: exchange_def swap_buffers_def)
    from exchange_effect[OF si] eo so wo RSwap same show ?thesis
      unfolding s'
      by (simp add: rinv_def sinv_def err_ok_def strm_ok_def writes_ok_def taken_def)
  next
    case (RWrite ok)
    with assms(2) have l0: "len (lbuf s) = 0" and s': "s' = s\<lparr>rpc := REnd ok\<rparr>"
      by (auto simp: remote_step_def split: if_splits)
    from si l0 have "cells (heap s) (lbuf s) = []"
      using length_cells[of "heap s" "lbuf s"] by (simp add: sinv_def)
    with wo RWrite filter_nonempty_butlast[of "batches s"]
    have "written (wire s) = filter (\<lambda>b. b \<noteq> []) (batches s)"
      by (simp add: writes_ok_def)
    with si eo so RWrite show ?thesis
      unfolding s'
      by (simp add: rinv_def sinv_def err_ok_def strm_ok_def writes_ok_def taken_def)
  next
    case (RFlush ok)
    with assms(2) show ?thesis by (simp add: remote_step_def)
  next
    case (REnd ok)
    with assms(2) si eo so wo show ?thesis
      by (auto simp: remote_step_def rinv_def sinv_def err_ok_def strm_ok_def writes_ok_def
          taken_def written_append split: if_splits option.splits)
  next
    case RReopen
    with assms(2) si eo so wo show ?thesis
      by (auto simp: remote_step_def rinv_def sinv_def err_ok_def strm_ok_def writes_ok_def
          taken_def written_append split: option.splits sum.splits)
  next
    case RDone
    with assms(2) show ?thesis by (simp add: remote_step_def)
  qed
qed

lemma rinv_write:
  assumes "rinv s" "remote_write g s = Next s'"
  shows "rinv s' \<and> taken s' = taken s"
proof (cases "rpc s")
  case (RWrite ok)
  from assms(1) have si: "sinv s" and eo: "err_ok s" and so: "strm_ok s" and wo: "writes_ok s"
    by (simp_all add: rinv_def)
  from assms(2) RWrite have l0: "len (lbuf s) \<noteq> 0"
    by (auto simp: remote_write_def split: if_splits)
  with si have ne: "cells (heap s) (lbuf s) \<noteq> []"
    using length_cells[of "heap s" "lbuf s"] by (auto simp: sinv_def)
  with wo RWrite filter_nonempty_butlast[of "batches s"]
  have "written (wire s) @ [cells (heap s) (lbuf s)] = filter (\<lambda>b. b \<noteq> []) (batches s)"
    by (simp add: writes_ok_def)
  with assms(2) RWrite si eo so l0 show ?thesis
    by (auto simp: remote_write_def rinv_def sinv_def err_ok_def strm_ok_def writes_ok_def
        taken_def written_append split: if_splits)
qed (use assms(2) in \<open>simp_all add: remote_write_def\<close>)

lemma rinv_flush:
  assumes "rinv s" "remote_flush g s = Next s'"
  shows "rinv s' \<and> taken s' = taken s"
proof (cases "rpc s")
  case (RFlush ok)
  with assms show ?thesis
    by (auto simp: remote_flush_def rinv_def sinv_def err_ok_def strm_ok_def writes_ok_def
        taken_def written_append split: if_splits)
qed (use assms(2) in \<open>simp_all add: remote_flush_def\<close>)

lemma rstep_producer:
  "a \<noteq> Loop \<Longrightarrow> (\<forall>g. a \<noteq> WriteMsg g) \<Longrightarrow> (\<forall>g. a \<noteq> Flush g) \<Longrightarrow> (\<forall>d. a \<noteq> Tick d) \<Longrightarrow>
     rstep a s = producer a s"
  by (cases a) auto

lemma rinv_step:
  assumes "rinv s" "rstep a s = Next s'"
  shows "rinv s' \<and> taken s' = taken s @ appended a"
proof (cases a)
  case Loop
  with assms rinv_Loop[of s s'] show ?thesis by simp
next
  case (WriteMsg g)
  with assms rinv_write[of s g s'] show ?thesis by simp
next
  case (Flush g)
  with assms rinv_flush[of s g s'] show ?thesis by simp
next
  case (Tick d)
  with assms rinv_Tick[of s] show ?thesis by auto
next
  case (TraceAppend e)
  with assms rinv_producer[of s a s'] show ?thesis by simp
next
  case TraceSignal
  with assms rinv_producer[of s a s'] show ?thesis by simp
next
  case CloseCall
  with assms rinv_producer[of s a s'] show ?thesis by simp
next
  case (Encode g)
  with assms show ?thesis by simp
qed

lemma rinv_run:
  "rinv s \<Longrightarrow> run rstep as s = Next s' \<Longrightarrow>
     rinv s' \<and> taken s' = taken s @ concat (map appended as)"
proof (induction as arbitrary: s)
  case Nil
  then show ?case by simp
next
  case (Cons a as)
  from run_Cons_Next[OF Cons.prems(2)] obtain s1
    where st: "rstep a s = Next s1" and rn: "run rstep as s1 = Next s'"
    by blast
  from rinv_step[OF Cons.prems(1) st] Cons.IH[OF _ rn] show ?case by simp
qed

lemma rinv_reach:
  assumes "run rstep as (new_remote env) = Next s"
  shows "rinv s" "taken s = map Some (enqueued as)"
  using rinv_run[OF rinv_new assms] by (simp_all add: taken_new appended_enqueued)

subsection \<open>File sinks: position of the loop, termination\<close>

lemma producer_frame:
  assumes "producer a s = Next s'"
  shows "\<exists>h b c n. s' = s\<lparr>heap := h, ch := c, buf := b, sending := n\<rparr> \<and>
           (closed (ch s) \<longrightarrow> closed c) \<and> (a = CloseCall \<longrightarrow> closed c) \<and>
           len b \<le> len (buf s) + (case a of TraceAppend e \<Rightarrow> 1 | _ \<Rightarrow> 0) \<and>
           queued c \<le> queued (ch s) + (case a of TraceSignal \<Rightarrow> 1 | _ \<Rightarrow> 0) \<and>
           ((\<forall>e. a \<noteq> TraceAppend e) \<longrightarrow> h = heap s \<and> b = buf s)"
proof (cases a)
  case (TraceAppend e)
  obtain h b where ga: "go_append (heap s) (buf s) (Some e) = (h, b)"
    by (cases "go_append (heap s) (buf s) (Some e)")
  then have lb: "len b = Suc (len (buf s))"
    by (auto simp: go_append_def Let_def split: option.splits if_splits)
  from assms TraceAppend ga
  have s': "s' = s\<lparr>heap := h, ch := ch s, buf := b, sending := Suc (sending s)\<rparr>"
    by (simp add: Trace_append_def)
  show ?thesis
    apply (rule exI[where x = h], rule exI[where x = b], rule exI[where x = "ch s"],
        rule exI[where x = "Suc (sending s)"])
    using lb s' TraceAppend by simp
next
  case TraceSignal
  with assms obtain c where c: "nb_send (ch s) = Some c"
    and s': "s' = s\<lparr>ch := c, sending := sending s - 1\<rparr>"
    by (auto simp: Trace_signal_def split: if_splits option.splits)
  from c have cq: "closed c = closed (ch s) \<and> queued c \<le> Suc (queued (ch s))"
    by (auto simp: nb_send_def split: if_splits)
  show ?thesis
    apply (rule exI[where x = "heap s"], rule exI[where x = "buf s"], rule exI[where x = c],
        rule exI[where x = "sending s - 1"])
    using cq s' TraceSignal by simp
next
  case CloseCall
  with assms obtain c where c: "close_chan (ch s) = Some c" and s': "s' = s\<lparr>ch := c\<rparr>"
    by (auto simp: Close_def split: option.splits)
  from c have cq: "closed c \<and> queued c = queued (ch s)"
    by (auto simp: close_chan_def split: if_splits)
  show ?thesis
    apply (rule exI[where x = "heap s"], rule exI[where x = "buf s"], rule exI[where x = c],
        rule exI[where x = "sending s"])
    using cq s' CloseCall by simp
qed (use assms in simp_all)

lemma pcinv_open: "pcinv (open_tracer f)"
  by (simp add: pcinv_def open_tracer_def)

lemma pcinv_step:
  assumes "pcinv s" "fstep a s = Next s'"
  shows "pcinv s'"
proof (cases "is_loop a")
  case False
  then have "fstep a s = producer a s" by (cases a) simp_all
  with assms(2) producer_frame[of a s s'] obtain h b c n
    where upd: "s' = s\<lparr>heap := h, ch := c, buf := b, sending := n\<rparr>"
      and cl: "closed (ch s) \<longrightarrow> closed c"
    by auto
  from assms(1) cl show ?thesis
    unfolding upd by (simp add: pcinv_def split: fpc.splits)
next
  case True
  then consider "a = Loop" | g where "a = Encode g" by (cases a) auto
  then show ?thesis
  proof cases
    case 1
    with assms show ?thesis
      by (cases "pc s")
        (auto simp: doWrite_step_def pcinv_def exchange_def swap_buffers_def recv_def
          split: option.splits if_splits)
  next
    case 2
    with assms show ?thesis
      by (cases "pc s")
        (auto simp: doWrite_encode_def pcinv_def Let_def split: if_splits prod.splits)
  qed
qed

lemma pcinv_run: "pcinv s \<Longrightarrow> run fstep as s = Next s' \<Longrightarrow> pcinv s'"
proof (induction as arbitrary: s)
  case (Cons a as)
  from run_Cons_Next[OF Cons.prems(2)] obtain s1
    where st: "fstep a s = Next s1" and rn: "run fstep as s1 = Next s'"
    by blast
  from Cons.IH[OF pcinv_step[OF Cons.prems(1) st] rn] show ?case .
qed simp

lemma steps_left_loop:
  assumes "pcinv s" "queued (ch s) \<le> 1" "is_loop a" "fstep a s = Next s'"
  shows "Suc (steps_left s') = steps_left s"
proof -
  from assms(3) consider "a = Loop" | g where "a = Encode g" by (cases a) auto
  then show ?thesis
  proof cases
    case 1
    with assms(1,2,4) show ?thesis
      by (cases "pc s")
        (auto simp: doWrite_step_def pcinv_def steps_left_def exchange_def swap_buffers_def
          recv_def reslice0_def Let_def split: option.splits if_splits)
  next
    case 2
    with assms(1,2,4) show ?thesis
      by (cases "pc s")
        (auto simp: doWrite_encode_def pcinv_def steps_left_def Let_def
          split: if_splits prod.splits)
  qed
qed

lemma steps_left_producer:
  assumes "\<not> is_loop a" "fstep a s = Next s'"
  shows "steps_left s' \<le> steps_left s + cost a"
proof -
  from assms(1) have "fstep a s = producer a s" by (cases a) simp_all
  with assms(2) producer_frame[of a s s'] obtain h b c n
    where upd: "s' = s\<lparr>heap := h, ch := c, buf := b, sending := n\<rparr>"
      and lb: "len b \<le> len (buf s) + (case a of TraceAppend e \<Rightarrow> 1 | _ \<Rightarrow> 0)"
      and qc: "queued c \<le> queued (ch s) + (case a of TraceSignal \<Rightarrow> 1 | _ \<Rightarrow> 0)"
    by auto
  from lb qc show ?thesis
    unfolding upd
    by (cases a; cases "pc s") (auto simp: steps_left_def Let_def)
qed

lemma steps_left_run:
  "finv s \<Longrightarrow> pcinv s \<Longrightarrow> run fstep as s = Next s' \<Longrightarrow>
     steps_left s' + length (filter is_loop as) \<le> steps_left s + sum_list (map cost as)"
proof (induction as arbitrary: s)
  case (Cons a as)
  from run_Cons_Next[OF Cons.prems(3)] obtain s1
    where st: "fstep a s = Next s1" and rn: "run fstep as s1 = Next s'"
    by blast
  from finv_step[OF Cons.prems(1) st] have f1: "finv s1" by simp
  from pcinv_step[OF Cons.prems(2) st] have p1: "pcinv s1" .
  from Cons.prems(1) have q: "queued (ch s) \<le> 1" by (simp add: finv_def sinv_def)
  have "steps_left s1 + (if is_loop a then 1 else 0) \<le> steps_left s + cost a"
  proof (cases "is_loop a")
    case True
    from steps_left_loop[OF Cons.prems(2) q True st] True show ?thesis
      by (cases a) auto
  next
    case False
    from steps_left_producer[OF False st] False show ?thesis by simp
  qed
  with Cons.IH[OF f1 p1 rn] show ?case by auto
qed simp

lemma filter_eq_snocD:
  "filter P as = xs @ [x] \<Longrightarrow> \<exists>us vs. as = us @ x # vs \<and> filter P us = xs \<and> filter P vs = []"
proof (induction as rule: rev_induct)
  case Nil
  then show ?case by simp
next
  case (snoc b bs)
  show ?case
  proof (cases "P b")
    case True
    with snoc.prems have "b = x" "filter P bs = xs" by simp_all
    then have "bs @ [b] = bs @ x # [] \<and> filter P bs = xs \<and> filter P [] = []" by simp
    then show ?thesis by blast
  next
    case False
    with snoc.prems have "filter P bs = xs @ [x]" by simp
    from snoc.IH[OF this] obtain us vs
      where "bs = us @ x # vs" "filter P us = xs" "filter P vs = []" by blast
    with False have "bs @ [b] = us @ x # (vs @ [b]) \<and> filter P us = xs \<and> filter P (vs @ [b]) = []"
      by simp
    then show ?thesis by blast
  qed
qed

lemma cost_producers: "sum_list (map cost as) = sum_list (map cost (filter (\<lambda>a. \<not> is_loop a) as))"
proof (induction as)
  case (Cons a as)
  then show ?case by (cases a) simp_all
qed simp

lemma closed_step:
  assumes "fstep a s = Next s'" "closed (ch s) \<or> a = CloseCall"
  shows "closed (ch s')"
proof (cases "is_loop a")
  case False
  then have "fstep a s = producer a s" by (cases a) simp_all
  with assms producer_frame[of a s s'] show ?thesis by auto
next
  case True
  then consider "a = Loop" | g where "a = Encode g" by (cases a) auto
  then show ?thesis
  proof cases
    case 1
    with assms show ?thesis
      by (cases "pc s")
        (auto simp: doWrite_step_def exchange_def swap_buffers_def recv_def
          split: option.splits if_splits)
  next
    case 2
    with assms show ?thesis
      by (cases "pc s") (auto simp: doWrite_encode_def Let_def split: if_splits prod.splits)
  qed
qed

lemma closed_run: "closed (ch s) \<Longrightarrow> run fstep as s = Next s' \<Longrightarrow> closed (ch s')"
proof (induction as arbitrary: s)
  case (Cons a as)
  from run_Cons_Next[OF Cons.prems(2)] obtain s1
    where st: "fstep a s = Next s1" and rn: "run fstep as s1 = Next s'"
    by blast
  from closed_step[OF st] Cons.prems(1) Cons.IH[OF _ rn] show ?case by simp
qed simp

lemma drained_step:
  assumes "finv s" "drained s" "fstep a s = Next s'" "\<forall>e. a \<noteq> TraceAppend e"
  shows "drained s'"
proof (cases "is_loop a")
  case False
  then have "fstep a s = producer a s" by (cases a) simp_all
  with assms(3,4) producer_frame[of a s s'] obtain c n
    where upd: "s' = s\<lparr>heap := heap s, ch := c, buf := buf s, sending := n\<rparr>"
    by auto
  from assms(2) show ?thesis
    unfolding upd by (simp add: drained_def)
next
  case True
  from assms(1) have si: "sinv s" by (simp add: finv_def)
  from True consider "a = Loop" | g where "a = Encode g" by (cases a) auto
  then show ?thesis
  proof cases
    case 1
    show ?thesis
    proof (cases "pc s")
      case (FSwap ok)
      with 1 assms(3) have s': "s' = (exchange s)\<lparr>pc := FRange ok 0\<rparr>"
        by (simp add: doWrite_step_def)
      from exchange_effect[OF si] show ?thesis
        unfolding s' by (simp add: drained_def)
    next
      case (FClear ok i)
      with 1 assms(3)
      have s': "s' = s\<lparr>heap := set_nil (heap s) (lbuf s) i, pc := FRange ok (Suc i)\<rparr>"
        by (simp add: doWrite_step_def)
      from si have "cells (set_nil (heap s) (lbuf s) i) (buf s) = cells (heap s) (buf s)"
        by (simp add: sinv_def set_nil_other disj_sym)
      with assms(2) FClear show ?thesis
        unfolding s' by (simp add: drained_def)
    qed (use 1 assms(2,3) in \<open>auto simp: doWrite_step_def drained_def
          split: option.splits if_splits\<close>)
  next
    case 2
    with assms(2,3) show ?thesis
      by (cases "pc s")
        (auto simp: doWrite_encode_def drained_def Let_def split: if_splits prod.splits)
  qed
qed

lemma drained_run:
  "finv s \<Longrightarrow> drained s \<Longrightarrow> run fstep as s = Next s' \<Longrightarrow> filter (\<lambda>a. \<not> is_loop a) as = [] \<Longrightarrow>
     drained s'"
proof (induction as arbitrary: s)
  case (Cons a as)
  from run_Cons_Next[OF Cons.prems(3)] obtain s1
    where st: "fstep a s = Next s1" and rn: "run fstep as s1 = Next s'"
    by blast
  from Cons.prems(4) have lp: "is_loop a" and rest: "filter (\<lambda>a. \<not> is_loop a) as = []"
    by (auto split: if_splits)
  from lp have "\<forall>e. a \<noteq> TraceAppend e" by auto
  from drained_step[OF Cons.prems(1,2) st this] finv_step[OF Cons.prems(1) st]
    Cons.IH[OF _ _ rn rest]
  show ?case by simp
qed simp

lemma intact_step:
  assumes "intact s" "fstep a s = Next s'" "a \<noteq> Encode MarshalError" "a \<noteq> Encode WriteError"
  shows "intact s' \<and> fmt s' = fmt s"
proof (cases "is_loop a")
  case False
  then have "fstep a s = producer a s" by (cases a) simp_all
  with assms(2) producer_frame[of a s s'] obtain h b c n
    where upd: "s' = s\<lparr>heap := h, ch := c, buf := b, sending := n\<rparr>"
    by auto
  from assms(1) show ?thesis
    unfolding upd by (simp add: intact_def)
next
  case True
  then consider "a = Loop" | g where "a = Encode g" by (cases a) auto
  then show ?thesis
  proof cases
    case 1
    with assms show ?thesis
      by (cases "pc s")
        (auto simp: doWrite_step_def exchange_def swap_buffers_def intact_def
          split: option.splits if_splits)
  next
    case 2
    with assms show ?thesis
      by (cases "pc s"; cases g)
        (auto simp: doWrite_encode_def encoder_call_def intact_def Let_def split: if_splits)
  qed
qed

lemma intact_run:
  "intact s \<Longrightarrow> run fstep as s = Next s' \<Longrightarrow>
     Encode MarshalError \<notin> set as \<and> Encode WriteError \<notin> set as \<Longrightarrow>
     intact s' \<and> fmt s' = fmt s"
proof (induction as arbitrary: s)
  case (Cons a as)
  from run_Cons_Next[OF Cons.prems(2)] obtain s1
    where st: "fstep a s = Next s1" and rn: "run fstep as s1 = Next s'"
    by blast
  from Cons.prems(3) have "a \<noteq> Encode MarshalError" "a \<noteq> Encode WriteError"
    "Encode MarshalError \<notin> set as \<and> Encode WriteError \<notin> set as"
    by auto
  with intact_step[OF Cons.prems(1) st] Cons.IH[OF _ rn] show ?case by simp
qed simp

lemma loop_enabled:
  assumes "closed (ch s) \<or> 0 < queued (ch s)" "pc s \<noteq> FDone"
  shows "\<exists>a s'. is_loop a \<and> fstep a s = Next s'"
proof (cases "pc s")
  case FRecv
  with assms(1) have "\<exists>s'. fstep Loop s = Next s'"
    by (auto simp: doWrite_step_def recv_def)
  then show ?thesis using is_loop.simps(1) by blast
next
  case (FSwap ok)
  then have "\<exists>s'. fstep Loop s = Next s'" by (simp add: doWrite_step_def)
  then show ?thesis using is_loop.simps(1) by blast
next
  case (FRange ok i)
  show ?thesis
  proof (cases "i < len (lbuf s)")
    case True
    with FRange have "\<exists>s'. fstep (Encode Written) s = Next s'"
      by (simp add: doWrite_encode_def Let_def split: prod.splits)
    then show ?thesis using is_loop.simps(2) by blast
  next
    case False
    with FRange have "\<exists>s'. fstep Loop s = Next s'" by (simp add: doWrite_step_def)
    then show ?thesis using is_loop.simps(1) by blast
  qed
next
  case (FClear ok i)
  then have "\<exists>s'. fstep Loop s = Next s'" by (simp add: doWrite_step_def)
  then show ?thesis using is_loop.simps(1) by blast
next
  case FDone
  with assms(2) show ?thesis by simp
qed

text \<open>
  C2. Three events enqueued by complete \<open>Trace\<close> calls, then \<open>Close()\<close>, on a JSON file
  sink, the write loop interleaved in any way: when the loop has returned it has encoded
  exactly A, B, C in that order and closed the file once, and if no encode call failed the
  file holds exactly the three lines; until then the loop always has a step to take, and it
  takes at most 18 steps in all, so it does return.
\<close>

theorem json_close_drains:
  assumes sched: "filter (\<lambda>a. \<not> is_loop a) as =
      [TraceAppend A, TraceSignal, TraceAppend B, TraceSignal, TraceAppend C, TraceSignal,
       CloseCall]"
    and run: "run fstep as (open_tracer JSON) = Next s"
  shows "(pc s = FDone \<longrightarrow>
            encoded s = [Some A, Some B, Some C] \<and> wcloses s = 1 \<and>
            (Encode MarshalError \<notin> set as \<and> Encode WriteError \<notin> set as \<longrightarrow>
               w s = [JsonLine (Some A), JsonLine (Some B), JsonLine (Some C)])) \<and>
         (pc s \<noteq> FDone \<longrightarrow> (\<exists>a s'. is_loop a \<and> fstep a s = Next s')) \<and>
         length (filter is_loop as) \<le> 18"
proof -
  let ?P = "\<lambda>a::'a action. \<not> is_loop a"
  from filter_eq_snocD[of ?P as
      "[TraceAppend A, TraceSignal, TraceAppend B, TraceSignal, TraceAppend C, TraceSignal]"
      CloseCall] sched
  obtain us vs where as: "as = us @ CloseCall # vs" and vs: "filter ?P vs = []"
    by auto
  from run[unfolded as run_append] obtain s1 s2
    where r1: "run fstep us (open_tracer JSON) = Next s1"
      and cl: "fstep CloseCall s1 = Next s2"
      and r2: "run fstep vs s2 = Next s"
    by (auto split: outcome.splits)
  note inv = finv_reach[OF run]
  have pi: "pcinv s" using pcinv_run[OF pcinv_open run] .
  \<comment> \<open>the channel is closed from \<open>Close()\<close> on\<close>
  have c2: "closed (ch s2)" using closed_step[OF cl] by simp
  have cs: "closed (ch s)" using closed_run[OF c2 r2] .
  \<comment> \<open>the loop had not seen the channel closed before \<open>Close()\<close>\<close>
  have p1: "pcinv s1" using pcinv_run[OF pcinv_open r1] .
  from cl have open1: "\<not> closed (ch s1)" and pc2: "pc s2 = pc s1"
    and b2: "cells (heap s2) (buf s2) = cells (heap s1) (buf s1)"
    by (auto simp: Close_def close_chan_def split: option.splits if_splits)
  from p1 open1 have "\<not> closing (pc s1)" by (auto simp: pcinv_def)
  with pc2 have d2: "drained s2" by (simp add: drained_def)
  have f2: "finv s2"
    using finv_step[OF finv_reach(1)[OF r1] cl] by simp
  have dr: "drained s" using drained_run[OF f2 d2 r2 vs] .
  have enq: "enqueued as = [A, B, C]"
  proof -
    have "enqueued xs = enqueued (filter ?P xs)" for xs :: "'a action list"
      by (induction xs rule: enqueued.induct) simp_all
    from this[of as] sched show ?thesis by simp
  qed
  have fin: "encoded s = [Some A, Some B, Some C] \<and> wcloses s = 1" if "pc s = FDone"
  proof -
    from dr that have "cells (heap s) (buf s) = []" by (simp add: drained_def)
    moreover from inv(1) that have "encoded s = concat (batches s)"
      by (simp add: finv_def todo_def)
    ultimately have "encoded s = map Some (enqueued as)"
      using inv(2) by (simp add: taken_def)
    with enq pi that show ?thesis by (simp add: pcinv_def)
  qed
  have lines: "w s = map (frame_of JSON) (encoded s)"
    if "Encode MarshalError \<notin> set as \<and> Encode WriteError \<notin> set as"
  proof -
    have i0: "intact (open_tracer JSON :: 'a filesink)"
      and f0: "fmt (open_tracer JSON :: 'a filesink) = JSON"
      by (simp_all add: intact_def open_tracer_def)
    from intact_run[OF i0 run that] f0 show ?thesis by (simp add: intact_def)
  qed
  have bound: "length (filter is_loop as) \<le> 18"
  proof -
    have "steps_left (open_tracer JSON :: 'a filesink) = 3"
      by (simp add: steps_left_def open_tracer_def make_chan_def nil_slice_def)
    moreover have "sum_list (map cost as) = 15"
      unfolding cost_producers[of as] sched by simp
    ultimately show ?thesis
      using steps_left_run[OF finv_open pcinv_open run] by simp
  qed
  from fin lines bound loop_enabled[of s] cs show ?thesis by auto
qed

lemma sched_close_runs:
  "(case run fstep sched_close (open_tracer JSON) of Next s \<Rightarrow> pc s = FDone | _ \<Rightarrow> False)"
  by code_simp

lemma sched_pending_runs:
  "(case run fstep sched_pending (open_tracer JSON) of
      Next s \<Rightarrow> pc s = FSwap True | _ \<Rightarrow> False)"
  by code_simp

theorem json_close_drains_witness:
  "\<exists>s t. run fstep sched_close (open_tracer JSON) = Next s \<and> pc s = FDone \<and>
         Encode MarshalError \<notin> set sched_close \<and> Encode WriteError \<notin> set sched_close \<and>
         wcloses s = 1 \<and>
         w s = [JsonLine (Some 1), JsonLine (Some 2), JsonLine (Some 3)] \<and>
         length (filter is_loop sched_close) \<le> 18 \<and>
         run fstep sched_pending (open_tracer JSON) = Next t \<and> pc t \<noteq> FDone \<and>
         (\<exists>a t'. is_loop a \<and> fstep a t = Next t')"
proof -
  obtain s where r: "run fstep sched_close (open_tracer JSON) = Next s" and d: "pc s = FDone"
    using sched_close_runs by (auto split: outcome.splits)
  obtain t where rt: "run fstep sched_pending (open_tracer JSON) = Next t" and dt: "pc t = FSwap True"
    using sched_pending_runs by (auto split: outcome.splits)
  have f: "filter (\<lambda>a. \<not> is_loop a) sched_close =
      [TraceAppend 1, TraceSignal, TraceAppend 2, TraceSignal, TraceAppend 3, TraceSignal,
       CloseCall]"
    by (simp add: sched_close_def)
  have ft: "filter (\<lambda>a. \<not> is_loop a) sched_pending =
      [TraceAppend 1, TraceSignal, TraceAppend 2, TraceSignal, TraceAppend 3, TraceSignal,
       CloseCall]"
    by (simp add: sched_pending_def)
  have n: "Encode MarshalError \<notin> set sched_close \<and> Encode WriteError \<notin> set sched_close"
    by (simp add: sched_close_def)
  from json_close_drains[OF f r] d n
  have 1: "wcloses s = 1 \<and> w s = [JsonLine (Some 1), JsonLine (Some 2), JsonLine (Some 3)] \<and>
      length (filter is_loop sched_close) \<le> 18"
    by simp
  from json_close_drains[OF ft rt] dt
  have 2: "\<exists>a t'. is_loop a \<and> fstep a t = Next t'"
    by simp
  from r d n 1 rt dt 2 show ?thesis by auto
qed

subsection \<open>Encode errors\<close>



















subsection \<open>Concrete runs used as witnesses\<close>

lemma openStream_env_up: "openStream env_up = Some (Inr 0, env_up1)"
  by (subst openStream.simps, subst connect.simps)
    (simp add: env_up_def env_up1_def host_call_def)

lemmas step_defs =
  remote_step_def remote_write_def remote_flush_def exchange_def swap_buffers_def
  Trace_append_def Trace_signal_def Close_def go_append_def set_nil_def cells_def reslice0_def
  growcap_def nb_send_def recv_def close_chan_def make_chan_def nil_slice_def Let_def

lemma sched_remote_runs:
  "\<exists>r. run rstep sched_remote (new_remote env_up) = Next r \<and> rpc r = RSwap True \<and>
       batches r = [[Some 1, Some 2, Some 3]] \<and> gzipW r = 0 \<and>
       wire r = [NWriteMsg 0 [Some 1, Some 2, Some 3] True, NFlush 0 True]"
  by (simp add: sched_remote_def new_remote_def NewRemoteTracer_def openStream_env_up step_defs)

subsection \<open>The buffer exchange\<close>

lemma concat_filter_nonempty: "concat (filter (\<lambda>b. b \<noteq> []) bs) = concat bs"
  by (induction bs) simp_all

lemma written_prefix:
  assumes "rinv r"
  shows "prefix (concat (written (wire r))) (concat (batches r))"
proof (cases "\<exists>ok. rpc r = RWrite ok")
  case True
  with assms have ne: "batches r \<noteq> []"
    and wr: "written (wire r) = filter (\<lambda>b. b \<noteq> []) (butlast (batches r))"
    by (auto simp: rinv_def writes_ok_def)
  from ne have "concat (batches r) = concat (butlast (batches r)) @ last (batches r)"
    using append_butlast_last_id[of "batches r"] concat_append[of "butlast (batches r)" "[last (batches r)]"]
    by simp
  with wr show ?thesis by (simp add: concat_filter_nonempty)
next
  case False
  with assms have "written (wire r) = filter (\<lambda>b. b \<noteq> []) (batches r)"
    by (auto simp: rinv_def writes_ok_def split: rpc.splits)
  then show ?thesis by (simp add: concat_filter_nonempty)
qed

lemma append_eq_dropI: "xs @ ys = zs \<Longrightarrow> ys = drop (length xs) zs"
  by auto

text \<open>
  C1. In every interleaving of producers and write loop, for a file sink of either format
  and for the remote sink:

  \<^item> the batches taken by the buffer exchanges so far, in order and followed by what \<open>t.buf\<close>
    still holds, are exactly the events appended by \<open>Trace\<close>, each once and in the order
    of the appends; what the loop has passed on (to the encoder, or in \<open>WriteMsg\<close> calls)
    is an initial part of those batches;

  \<^item> whenever the loop is at the exchange, the exchange is enabled, the loop's \<open>buf\<close>
    becomes exactly the content of \<open>t.buf\<close>, which is the events appended since the exchange
    before, in order, this is the batch recorded, and \<open>t.buf\<close> is empty afterwards;

  \<^item> what the loop then passes on is that batch, whatever the producers append meanwhile:
    event \<open>i\<close> of the batch in the encode call at index \<open>i\<close> of a file sink, the whole
    batch in the \<open>WriteMsg\<close> call of the remote sink;

  \<^item> when the loop is not on a batch, every batch taken has been passed on, whole and in
    order (the non-empty ones in the remote sink, which skips an empty batch).
\<close>

theorem swap_batch_exact:
  "(run fstep as (open_tracer f) = Next s \<longrightarrow>
      concat (batches s) @ cells (heap s) (buf s) = map Some (enqueued as) \<and>
      prefix (encoded s) (concat (batches s)) \<and>
      (\<forall>ok. pc s = FSwap ok \<longrightarrow>
         (\<exists>s'. fstep Loop s = Next s' \<and> pc s' = FRange ok 0 \<and>
               cells (heap s') (lbuf s') = cells (heap s) (buf s) \<and>
               cells (heap s') (lbuf s') =
                 drop (length (concat (batches s))) (map Some (enqueued as)) \<and>
               batches s' = batches s @ [cells (heap s') (lbuf s')] \<and>
               cells (heap s') (buf s') = [])) \<and>
      (\<forall>ok i. pc s = FRange ok i \<and> i < len (lbuf s) \<longrightarrow>
         batches s \<noteq> [] \<and> i < length (last (batches s)) \<and>
         (\<forall>g. \<exists>s'. fstep (Encode g) s = Next s' \<and>
                 encoded s' = encoded s @ [last (batches s) ! i])) \<and>
      (pc s = FRecv \<or> pc s = FDone \<or> (\<exists>ok. pc s = FSwap ok) \<longrightarrow>
         encoded s = concat (batches s))) \<and>
   (run rstep bs (new_remote env) = Next r \<longrightarrow>
      concat (batches r) @ cells (heap r) (buf r) = map Some (enqueued bs) \<and>
      prefix (concat (written (wire r))) (concat (batches r)) \<and>
      (\<forall>ok. rpc r = RSwap ok \<longrightarrow>
         (\<exists>r'. rstep Loop r = Next r' \<and> rpc r' = RWrite ok \<and>
               cells (heap r') (lbuf r') = cells (heap r) (buf r) \<and>
               cells (heap r') (lbuf r') =
                 drop (length (concat (batches r))) (map Some (enqueued bs)) \<and>
               batches r' = batches r @ [cells (heap r') (lbuf r')] \<and>
               cells (heap r') (buf r') = [])) \<and>
      (\<forall>ok. rpc r = RWrite ok \<and> len (lbuf r) \<noteq> 0 \<longrightarrow>
         batches r \<noteq> [] \<and>
         (\<forall>g. \<exists>r'. rstep (WriteMsg g) r = Next r' \<and>
                 wire r' = wire r @ [NWriteMsg (gzipW r) (last (batches r)) g])) \<and>
      ((\<forall>ok. rpc r \<noteq> RWrite ok) \<longrightarrow>
         written (wire r) = filter (\<lambda>b. b \<noteq> []) (batches r)))"
proof -
  have file_sink:
    "concat (batches s) @ cells (heap s) (buf s) = map Some (enqueued as) \<and>
     prefix (encoded s) (concat (batches s)) \<and>
     (\<forall>ok. pc s = FSwap ok \<longrightarrow>
        (\<exists>s'. fstep Loop s = Next s' \<and> pc s' = FRange ok 0 \<and>
              cells (heap s') (lbuf s') = cells (heap s) (buf s) \<and>
              cells (heap s') (lbuf s') =
                drop (length (concat (batches s))) (map Some (enqueued as)) \<and>
              batches s' = batches s @ [cells (heap s') (lbuf s')] \<and>
              cells (heap s') (buf s') = [])) \<and>
     (\<forall>ok i. pc s = FRange ok i \<and> i < len (lbuf s) \<longrightarrow>
        batches s \<noteq> [] \<and> i < length (last (batches s)) \<and>
        (\<forall>g. \<exists>s'. fstep (Encode g) s = Next s' \<and>
                encoded s' = encoded s @ [last (batches s) ! i])) \<and>
     (pc s = FRecv \<or> pc s = FDone \<or> (\<exists>ok. pc s = FSwap ok) \<longrightarrow>
        encoded s = concat (batches s))"
    if r: "run fstep as (open_tracer f) = Next s"
  proof -
    note inv = finv_reach[OF r]
    from inv(1) have si: "sinv s" and enc: "encoded s @ todo s = concat (batches s)"
      by (simp_all add: finv_def)
    from inv(2) have cons: "concat (batches s) @ cells (heap s) (buf s) = map Some (enqueued as)"
      by (simp add: taken_def)
    from enc have pre: "prefix (encoded s) (concat (batches s))"
      by (metis prefixI)
    have swap: "\<exists>s'. fstep Loop s = Next s' \<and> pc s' = FRange ok 0 \<and>
              cells (heap s') (lbuf s') = cells (heap s) (buf s) \<and>
              cells (heap s') (lbuf s') =
                drop (length (concat (batches s))) (map Some (enqueued as)) \<and>
              batches s' = batches s @ [cells (heap s') (lbuf s')] \<and>
              cells (heap s') (buf s') = []"
      if p: "pc s = FSwap ok" for ok
    proof -
      let ?s' = "(exchange s)\<lparr>pc := FRange ok 0\<rparr>"
      from p have st: "fstep Loop s = Next ?s'" by (simp add: doWrite_step_def)
      from exchange_effect[OF si] append_eq_dropI[OF cons]
      have "pc ?s' = FRange ok 0 \<and>
          cells (heap ?s') (lbuf ?s') = cells (heap s) (buf s) \<and>
          cells (heap ?s') (lbuf ?s') =
            drop (length (concat (batches s))) (map Some (enqueued as)) \<and>
          batches ?s' = batches s @ [cells (heap ?s') (lbuf ?s')] \<and>
          cells (heap ?s') (buf ?s') = []"
        by simp
      with st show ?thesis by blast
    qed
    have range: "batches s \<noteq> [] \<and> i < length (last (batches s)) \<and>
        (\<forall>g. \<exists>s'. fstep (Encode g) s = Next s' \<and>
                encoded s' = encoded s @ [last (batches s) ! i])"
      if p: "pc s = FRange ok i \<and> i < len (lbuf s)" for ok i
    proof -
      from held_reach[OF r] p
      have h: "batches s \<noteq> []" "length (last (batches s)) = len (lbuf s)"
        "drop i (cells (heap s) (lbuf s)) = drop i (last (batches s))"
        by (simp_all add: held_def)
      from si have "length (cells (heap s) (lbuf s)) = len (lbuf s)"
        by (simp add: sinv_def length_cells)
      with h(2,3) p have nth: "cells (heap s) (lbuf s) ! i = last (batches s) ! i"
        by (metis hd_drop_conv_nth)
      have "\<exists>s'. fstep (Encode g) s = Next s' \<and>
                encoded s' = encoded s @ [last (batches s) ! i]" for g
        using p nth by (simp add: doWrite_encode_def Let_def split: prod.splits)
      with h(1,2) p show ?thesis by simp
    qed
    have past: "encoded s = concat (batches s)"
      if "pc s = FRecv \<or> pc s = FDone \<or> (\<exists>ok. pc s = FSwap ok)"
      using that enc by (auto simp: todo_def)
    from cons pre swap range past show ?thesis by blast
  qed
  have remote_sink:
    "concat (batches r) @ cells (heap r) (buf r) = map Some (enqueued bs) \<and>
     prefix (concat (written (wire r))) (concat (batches r)) \<and>
     (\<forall>ok. rpc r = RSwap ok \<longrightarrow>
        (\<exists>r'. rstep Loop r = Next r' \<and> rpc r' = RWrite ok \<and>
              cells (heap r') (lbuf r') = cells (heap r) (buf r) \<and>
              cells (heap r') (lbuf r') =
                drop (length (concat (batches r))) (map Some (enqueued bs)) \<and>
              batches r' = batches r @ [cells (heap r') (lbuf r')] \<and>
              cells (heap r') (buf r') = [])) \<and>
     (\<forall>ok. rpc r = RWrite ok \<and> len (lbuf r) \<noteq> 0 \<longrightarrow>
        batches r \<noteq> [] \<and>
        (\<forall>g. \<exists>r'. rstep (WriteMsg g) r = Next r' \<and>
                wire r' = wire r @ [NWriteMsg (gzipW r) (last (batches r)) g])) \<and>
     ((\<forall>ok. rpc r \<noteq> RWrite ok) \<longrightarrow>
        written (wire r) = filter (\<lambda>b. b \<noteq> []) (batches r))"
    if rn: "run rstep bs (new_remote env) = Next r"
  proof -
    note inv = rinv_reach[OF rn]
    from inv(1) have si: "sinv r" and wo: "writes_ok r"
      by (simp_all add: rinv_def)
    from inv(2) have cons: "concat (batches r) @ cells (heap r) (buf r) = map Some (enqueued bs)"
      by (simp add: taken_def)
    note pre = written_prefix[OF inv(1)]
    have swap: "\<exists>r'. rstep Loop r = Next r' \<and> rpc r' = RWrite ok \<and>
              cells (heap r') (lbuf r') = cells (heap r) (buf r) \<and>
              cells (heap r') (lbuf r') =
                drop (length (concat (batches r))) (map Some (enqueued bs)) \<and>
              batches r' = batches r @ [cells (heap r') (lbuf r')] \<and>
              cells (heap r') (buf r') = []"
      if p: "rpc r = RSwap ok" for ok
    proof -
      let ?r' = "(exchange r)\<lparr>rpc := RWrite ok\<rparr>"
      from p have st: "rstep Loop r = Next ?r'" by (simp add: remote_step_def)
      from exchange_effect[OF si] append_eq_dropI[OF cons]
      have "rpc ?r' = RWrite ok \<and>
          cells (heap ?r') (lbuf ?r') = cells (heap r) (buf r) \<and>
          cells (heap ?r') (lbuf ?r') =
            drop (length (concat (batches r))) (map Some (enqueued bs)) \<and>
          batches ?r' = batches r @ [cells (heap ?r') (lbuf ?r')] \<and>
          cells (heap ?r') (buf ?r') = []"
        by simp
      with st show ?thesis by blast
    qed
    have sent: "batches r \<noteq> [] \<and>
        (\<forall>g. \<exists>r'. rstep (WriteMsg g) r = Next r' \<and>
                wire r' = wire r @ [NWriteMsg (gzipW r) (last (batches r)) g])"
      if p: "rpc r = RWrite ok \<and> len (lbuf r) \<noteq> 0" for ok
    proof -
      from wo p have h: "batches r \<noteq> []" "last (batches r) = cells (heap r) (lbuf r)"
        by (simp_all add: writes_ok_def)
      have "\<exists>r'. rstep (WriteMsg g) r = Next r' \<and>
                wire r' = wire r @ [NWriteMsg (gzipW r) (last (batches r)) g]" for g
        using p h(2) by (cases g) (simp_all add: remote_write_def)
      with h(1) show ?thesis by simp
    qed
    have past: "written (wire r) = filter (\<lambda>b. b \<noteq> []) (batches r)"
      if "\<forall>ok. rpc r \<noteq> RWrite ok"
      using that wo by (auto simp: writes_ok_def split: rpc.splits)
    from cons pre swap sent past show ?thesis by blast
  qed
  from file_sink remote_sink show ?thesis by blast
qed

lemma sched_file_runs:
  "(case run fstep sched_file (open_tracer PB) of
      Next s \<Rightarrow> pc s = FSwap True \<and> batches s = [[Some 1, Some 2]] \<and>
                encoded s = [Some 1, Some 2]
    | _ \<Rightarrow> False)"
  by code_simp

theorem swap_batch_exact_witness:
  "\<exists>s s' s'' r r' r''.
     run fstep sched_file (open_tracer PB) = Next s \<and> pc s = FSwap True \<and>
     concat (batches s) @ cells (heap s) (buf s) = map Some [1, 2, 3, 4] \<and>
     encoded s = concat (batches s) \<and> batches s = [[Some 1, Some 2]] \<and>
     fstep Loop s = Next s' \<and> pc s' = FRange True 0 \<and> 0 < len (lbuf s') \<and>
     cells (heap s') (lbuf s') = [Some 3, Some 4] \<and> cells (heap s') (buf s') = [] \<and>
     batches s' = [[Some 1, Some 2], [Some 3, Some 4]] \<and>
     fstep (Encode Written) s' = Next s'' \<and> encoded s'' = [Some 1, Some 2, Some 3] \<and>
     run rstep sched_remote (new_remote env_up) = Next r \<and> rpc r = RSwap True \<and>
     concat (batches r) @ cells (heap r) (buf r) = map Some [1, 2, 3, 4] \<and>
     written (wire r) = [[Some 1, Some 2, Some 3]] \<and> batches r = [[Some 1, Some 2, Some 3]] \<and>
     rstep Loop r = Next r' \<and> rpc r' = RWrite True \<and> len (lbuf r') \<noteq> 0 \<and>
     cells (heap r') (lbuf r') = [Some 4] \<and> cells (heap r') (buf r') = [] \<and>
     batches r' = [[Some 1, Some 2, Some 3], [Some 4]] \<and>
     rstep (WriteMsg True) r' = Next r'' \<and>
     wire r'' = wire r' @ [NWriteMsg 0 [Some 4] True]"
proof -
  have e: "enqueued sched_file = [1, 2, 3, 4]" "enqueued sched_remote = [1, 2, 3, 4]"
    by (simp_all add: sched_file_def sched_remote_def)
  \<comment> \<open>the file sink at its second exchange\<close>
  obtain s where s: "run fstep sched_file (open_tracer PB) = Next s"
    and ps: "pc s = FSwap True" and bs: "batches s = [[Some 1, Some 2]]"
    using sched_file_runs by (auto split: outcome.splits)
  note at_s = swap_batch_exact[where as = sched_file and f = PB and s = s, THEN conjunct1,
      THEN mp, OF s]
  from at_s ps have 1: "concat (batches s) @ cells (heap s) (buf s) = map Some [1, 2, 3, 4]"
    "encoded s = concat (batches s)"
    by (auto simp: e)
  from at_s ps obtain s' where st: "fstep Loop s = Next s'" and ps': "pc s' = FRange True 0"
    and 2: "cells (heap s') (lbuf s') = cells (heap s) (buf s)"
      "cells (heap s') (lbuf s') = drop (length (concat (batches s))) (map Some (enqueued sched_file))"
      "batches s' = batches s @ [cells (heap s') (lbuf s')]"
      "cells (heap s') (buf s') = []"
    by blast
  from 2(2,3) bs have 3: "cells (heap s') (lbuf s') = [Some 3, Some 4]"
    "batches s' = [[Some 1, Some 2], [Some 3, Some 4]]"
    by (simp_all add: e)
  from s st have s2: "run fstep (sched_file @ [Loop]) (open_tracer PB) = Next s'"
    by (simp add: run_append)
  from finv_reach(1)[OF s2] 3(1) have l': "0 < len (lbuf s')"
    using length_cells[of "heap s'" "lbuf s'"] by (auto simp: finv_def sinv_def)
  note at_s' = swap_batch_exact[where as = "sched_file @ [Loop]" and f = PB and s = s',
      THEN conjunct1, THEN mp, OF s2]
  from at_s' ps' l' obtain s'' where st': "fstep (Encode Written) s' = Next s''"
    and 4: "encoded s'' = encoded s' @ [last (batches s') ! 0]"
    by blast
  from st ps have "encoded s' = encoded s"
    by (simp add: doWrite_step_def exchange_def swap_buffers_def) auto
  with 4 3(2) 1(2) bs have 5: "encoded s'' = [Some 1, Some 2, Some 3]" by simp
  \<comment> \<open>the remote sink at its second exchange\<close>
  obtain r where r: "run rstep sched_remote (new_remote env_up) = Next r"
    and pr: "rpc r = RSwap True" and br: "batches r = [[Some 1, Some 2, Some 3]]"
    and gr: "gzipW r = 0"
    using sched_remote_runs by blast
  note at_r = swap_batch_exact[where bs = sched_remote and env = env_up and r = r,
      THEN conjunct2, THEN mp, OF r]
  from at_r pr br have 6: "concat (batches r) @ cells (heap r) (buf r) = map Some [1, 2, 3, 4]"
    "written (wire r) = [[Some 1, Some 2, Some 3]]"
    by (auto simp: e)
  from at_r pr obtain r' where rt: "rstep Loop r = Next r'" and pr': "rpc r' = RWrite True"
    and 7: "cells (heap r') (lbuf r') = cells (heap r) (buf r)"
      "cells (heap r') (lbuf r') = drop (length (concat (batches r))) (map Some (enqueued sched_remote))"
      "batches r' = batches r @ [cells (heap r') (lbuf r')]"
      "cells (heap r') (buf r') = []"
    by blast
  from 7(2,3) br have 8: "cells (heap r') (lbuf r') = [Some 4]"
    "batches r' = [[Some 1, Some 2, Some 3], [Some 4]]"
    by (simp_all add: e)
  from r rt have r2: "run rstep (sched_remote @ [Loop]) (new_remote env_up) = Next r'"
    by (simp add: run_append)
  from rinv_reach(1)[OF r2] 8(1) have lr': "len (lbuf r') \<noteq> 0"
    using length_cells[of "heap r'" "lbuf r'"] by (auto simp: rinv_def sinv_def)
  note at_r' = swap_batch_exact[where bs = "sched_remote @ [Loop]" and env = env_up and r = r',
      THEN conjunct2, THEN mp, OF r2]
  from at_r' pr' lr' obtain r'' where rt': "rstep (WriteMsg True) r' = Next r''"
    and 9: "wire r'' = wire r' @ [NWriteMsg (gzipW r') (last (batches r')) True]"
    by blast
  from rt pr gr have "gzipW r' = 0"
    by (simp add: remote_step_def exchange_def swap_buffers_def) auto
  with 9 8(2) have 10: "wire r'' = wire r' @ [NWriteMsg 0 [Some 4] True]" by simp
  have "run fstep sched_file (open_tracer PB) = Next s \<and> pc s = FSwap True \<and>
     concat (batches s) @ cells (heap s) (buf s) = map Some [1, 2, 3, 4] \<and>
     encoded s = concat (batches s) \<and> batches s = [[Some 1, Some 2]] \<and>
     fstep Loop s = Next s' \<and> pc s' = FRange True 0 \<and> 0 < len (lbuf s') \<and>
     cells (heap s') (lbuf s') = [Some 3, Some 4] \<and> cells (heap s') (buf s') = [] \<and>
     batches s' = [[Some 1, Some 2], [Some 3, Some 4]] \<and>
     fstep (Encode Written) s' = Next s'' \<and> encoded s'' = [Some 1, Some 2, Some 3] \<and>
     run rstep sched_remote (new_remote env_up) = Next r \<and> rpc r = RSwap True \<and>
     concat (batches r) @ cells (heap r) (buf r) = map Some [1, 2, 3, 4] \<and>
     written (wire r) = [[Some 1, Some 2, Some 3]] \<and> batches r = [[Some 1, Some 2, Some 3]] \<and>
     rstep Loop r = Next r' \<and> rpc r' = RWrite True \<and> len (lbuf r') \<noteq> 0 \<and>
     cells (heap r') (lbuf r') = [Some 4] \<and> cells (heap r') (buf r') = [] \<and>
     batches r' = [[Some 1, Some 2, Some 3], [Some 4]] \<and>
     rstep (WriteMsg True) r' = Next r'' \<and>
     wire r'' = wire r' @ [NWriteMsg 0 [Some 4] True]"
    using s ps 1 bs st ps' l' 3 2(4) st' 5 r pr 6 br rt pr' lr' 8 7(4) rt' 10
    by (intro conjI)
  then show ?thesis by blast
qed

subsection \<open>The wake signal\<close>

lemma coalescing_producer:
  assumes "sinv s" "\<And>e. st (TraceAppend e) s = producer (TraceAppend e) s"
    "st TraceSignal s = producer TraceSignal s"
  shows "coalescing st s"
proof -
  have ap: "\<exists>s1. st (TraceAppend e) s = Next s1 \<and> ch s1 = ch s \<and>
              cells (heap s1) (buf s1) = cells (heap s) (buf s) @ [Some e]" for e
  proof -
    from Trace_append_effect[OF assms(1), of e] obtain h b
      where c: "cells (heap (Trace_append e s)) (buf (Trace_append e s)) =
                  cells (heap s) (buf s) @ [Some e]"
        and u: "Trace_append e s = s\<lparr>heap := h, buf := b\<rparr>"
      by blast
    from c show ?thesis
      unfolding assms(2) by (simp add: u)
  qed
  have sg: "st TraceSignal s \<noteq> Disabled \<and>
        (queued (ch s) = 1 \<longrightarrow>
           st TraceSignal s =
             (if closed (ch s) then Panic else Next (s\<lparr>sending := sending s - 1\<rparr>)))"
    if "0 < sending s"
    using that unfolding assms(3)
    by (auto simp: Trace_signal_def nb_send_def split: option.splits)
  from assms(1) ap sg show ?thesis
    by (simp add: coalescing_def sinv_def)
qed

text \<open>
  C4. Every reachable state of a file sink and of the remote sink has at most one pending
  wake, lets producers append and signal without blocking, and coalesces a signal that finds
  the slot full.
\<close>

theorem wake_coalesced:
  "(run fstep as (open_tracer f) = Next s \<longrightarrow> coalescing fstep s) \<and>
   (run rstep bs (new_remote env) = Next r \<longrightarrow> coalescing rstep r)"
proof (intro conjI impI)
  assume "run fstep as (open_tracer f) = Next s"
  from finv_reach(1)[OF this] have "sinv s" by (simp add: finv_def)
  then show "coalescing fstep s" by (rule coalescing_producer) simp_all
next
  assume "run rstep bs (new_remote env) = Next r"
  from rinv_reach(1)[OF this] have "sinv r" by (simp add: rinv_def)
  then show "coalescing rstep r" by (rule coalescing_producer) simp_all
qed

lemma sched_full_file:
  "(case run fstep sched_full (open_tracer JSON) of
      Next s \<Rightarrow> queued (ch s) = 1 \<and> sending s = 1 \<and> \<not> closed (ch s) | _ \<Rightarrow> False)"
  by code_simp

lemma sched_full_remote:
  "\<exists>r. run rstep sched_full (new_remote env_up) = Next r \<and> queued (ch r) = 1 \<and>
       sending r = 1 \<and> \<not> closed (ch r)"
  by (simp add: sched_full_def new_remote_def NewRemoteTracer_def step_defs)

theorem wake_coalesced_witness:
  "\<exists>s r. run fstep sched_full (open_tracer JSON) = Next s \<and>
         run rstep sched_full (new_remote env_up) = Next r \<and>
         queued (ch s) = 1 \<and> fstep TraceSignal s = Next (s\<lparr>sending := 0\<rparr>) \<and>
         queued (ch r) = 1 \<and> rstep TraceSignal r = Next (r\<lparr>sending := 0\<rparr>)"
proof -
  obtain s where s: "run fstep sched_full (open_tracer JSON) = Next s"
    "queued (ch s) = 1" "sending s = 1" "\<not> closed (ch s)"
    using sched_full_file by (auto split: outcome.splits)
  obtain r where r: "run rstep sched_full (new_remote env_up) = Next r"
    "queued (ch r) = 1" "sending r = 1" "\<not> closed (ch r)"
    using sched_full_remote by blast
  from wake_coalesced[of sched_full JSON s sched_full env_up r] s r
  have "fstep TraceSignal s = Next (s\<lparr>sending := 0\<rparr>)"
    "rstep TraceSignal r = Next (r\<lparr>sending := 0\<rparr>)"
    by (simp_all add: coalescing_def)
  with s r show ?thesis by blast
qed

subsection \<open>\<open>Trace\<close> after \<open>Close\<close>\<close>

lemma Trace_open: "\<not> closed (ch t) \<Longrightarrow> \<exists>t'. Trace evt t = Some t'"
  by (simp add: Trace_def Trace_signal_def Trace_append_def nb_send_def split: prod.splits)

lemma Trace_closed: "closed (ch t) \<Longrightarrow> Trace evt t = None"
  by (simp add: Trace_def Trace_signal_def Trace_append_def nb_send_def split: prod.splits)

text \<open>
  C3. The claim fails on the code: after \<open>Close()\<close> a call of \<open>Trace\<close> appends the event and
  then panics in the \<open>select\<close>, the send being on a closed channel. Evaluated here on a
  JSON sink, a protobuf sink and the remote sink.
\<close>

theorem trace_after_close_panics:
  "run fstep [CloseCall, TraceAppend (1::nat), TraceSignal] (open_tracer JSON) = Panic \<and>
   run fstep [CloseCall, TraceAppend (1::nat), TraceSignal] (open_tracer PB) = Panic \<and>
   run rstep [CloseCall, TraceAppend (1::nat), TraceSignal] (new_remote env_up) = Panic \<and>
   (case Close (open_tracer JSON) of Some t \<Rightarrow> Trace (1::nat) t = None | None \<Rightarrow> False)"
  by (simp add: open_tracer_def new_remote_def NewRemoteTracer_def Trace_def step_defs)

subsection \<open>Remote sink: shutdown, errors, empty batches\<close>








lemma wire_grows_step:
  assumes "rstep a s = Next s'"
  shows "prefix (wire s) (wire s')"
proof (cases a)
  case Loop
  with assms show ?thesis
    by (cases "rpc s")
      (auto simp: remote_step_def exchange_def swap_buffers_def
        split: if_splits option.splits sum.splits)
next
  case (WriteMsg g)
  with assms show ?thesis
    by (cases "rpc s") (auto simp: remote_write_def split: if_splits)
next
  case (Flush g)
  with assms show ?thesis
    by (cases "rpc s") (auto simp: remote_flush_def split: if_splits)
next
  case (Tick d)
  with assms show ?thesis by auto
next
  case (Encode g)
  with assms show ?thesis by simp
next
  case (TraceAppend e)
  with assms producer_frame[of a s s'] show ?thesis by auto
next
  case TraceSignal
  with assms producer_frame[of a s s'] show ?thesis by auto
next
  case CloseCall
  with assms producer_frame[of a s s'] show ?thesis by auto
qed

lemma wire_grows_run: "run rstep as s = Next s' \<Longrightarrow> prefix (wire s) (wire s')"
proof (induction as arbitrary: s)
  case (Cons a as)
  from run_Cons_Next[OF Cons.prems] obtain s1
    where st: "rstep a s = Next s1" and rn: "run rstep as s1 = Next s'"
    by blast
  from wire_grows_step[OF st] Cons.IH[OF rn] show ?case by (rule prefix_order.trans)
qed simp

lemma written_mono: "prefix xs ys \<Longrightarrow> prefix (written xs) (written ys)"
  by (auto simp: prefix_def written_append)

lemma end_failed:
  assumes "rinv s" "rpc s = REnd ok" "last_failed (wire s)"
  shows "\<exists>sid. strm s = Some sid \<and>
           rstep Loop s =
             Next (s\<lparr>wire := wire s @ [NReset sid], rpc := (if ok then RReopen else RDone)\<rparr>)"
  using assms
  by (auto simp: rinv_def strm_ok_def err_ok_def remote_step_def)

text \<open>
  C6. At the label \<open>end\<close> of the remote write loop, reached from any interleaving, after a
  write or flush that failed: the stream is reset; unless the loop is closing, the next
  step calls \<open>openStream\<close> and, when that returns a stream, the compressor is reset onto it
  and the loop is back at the receive (when it returns an error the loop returns). The
  batch is not sent again: in every continuation the batches handed to \<open>WriteMsg\<close> extend
  those handed so far and, put end to end, stay an initial part of the appended events.
\<close>

theorem write_error_recovery:
  assumes reach: "run rstep as (new_remote env) = Next s"
    and at: "rpc s = REnd ok"
    and bad: "last_failed (wire s)"
  shows "\<exists>sid. strm s = Some sid \<and>
           rstep Loop s =
             Next (s\<lparr>wire := wire s @ [NReset sid], rpc := (if ok then RReopen else RDone)\<rparr>) \<and>
           (\<forall>sid' env'. openStream (net s) = Some (Inr sid', env') \<longrightarrow>
              rstep Loop (s\<lparr>wire := wire s @ [NReset sid], rpc := RReopen\<rparr>) =
                Next (s\<lparr>net := env', strm := Some sid', err := None, gzipW := sid',
                        wire := wire s @ [NReset sid, NGzipReset sid'], rpc := RRecv\<rparr>)) \<and>
           (\<forall>e env'. openStream (net s) = Some (Inl e, env') \<longrightarrow>
              rstep Loop (s\<lparr>wire := wire s @ [NReset sid], rpc := RReopen\<rparr>) =
                Next (s\<lparr>net := env', strm := None, err := Some e, errlog := Suc (errlog s),
                        wire := wire s @ [NReset sid], rpc := RDone\<rparr>)) \<and>
           (\<forall>bs s'. run rstep bs s = Next s' \<longrightarrow>
              prefix (written (wire s)) (written (wire s')) \<and>
              prefix (concat (written (wire s'))) (map Some (enqueued (as @ bs))))"
proof -
  note inv = rinv_reach(1)[OF reach]
  from end_failed[OF inv at bad] obtain sid where sid: "strm s = Some sid"
    and st: "rstep Loop s =
       Next (s\<lparr>wire := wire s @ [NReset sid], rpc := (if ok then RReopen else RDone)\<rparr>)"
    by blast
  let ?s1 = "s\<lparr>wire := wire s @ [NReset sid], rpc := RReopen\<rparr>"
  have ro: "rstep Loop ?s1 =
      Next (s\<lparr>net := env', strm := Some sid', err := None, gzipW := sid',
              wire := wire s @ [NReset sid, NGzipReset sid'], rpc := RRecv\<rparr>)"
    if "openStream (net s) = Some (Inr sid', env')" for sid' env'
    using that by (simp add: remote_step_def)
  have rf: "rstep Loop ?s1 =
      Next (s\<lparr>net := env', strm := None, err := Some e, errlog := Suc (errlog s),
              wire := wire s @ [NReset sid], rpc := RDone\<rparr>)"
    if "openStream (net s) = Some (Inl e, env')" for e env'
    using that by (simp add: remote_step_def)
  have later: "prefix (written (wire s)) (written (wire s')) \<and>
      prefix (concat (written (wire s'))) (map Some (enqueued (as @ bs)))"
    if r: "run rstep bs s = Next s'" for bs s'
  proof -
    from reach r have all: "run rstep (as @ bs) (new_remote env) = Next s'"
      by (simp add: run_append)
    from rinv_reach[OF all] have i': "rinv s'"
      and tk: "concat (batches s') @ cells (heap s') (buf s') = map Some (enqueued (as @ bs))"
      by (simp_all add: taken_def)
    from written_prefix[OF i'] tk
    have "prefix (concat (written (wire s'))) (map Some (enqueued (as @ bs)))"
      by (metis prefix_prefix)
    with written_mono[OF wire_grows_run[OF r]] show ?thesis by simp
  qed
  from sid st ro rf later show ?thesis by blast
qed

lemma sched_fail_runs:
  "\<exists>s. run rstep sched_fail (new_remote env_up) = Next s \<and> rpc s = REnd True \<and>
       strm s = Some 0 \<and> wire s = [NWriteMsg 0 [Some 1] False] \<and> gzipW s = 0 \<and>
       net s = env_up1\<lparr>now := 5 + second\<rparr>"
  by (simp add: sched_fail_def new_remote_def NewRemoteTracer_def openStream_env_up step_defs
      env_up1_def)

lemma openStream_env_up1: "openStream (env_up1\<lparr>now := 5 + second\<rparr>) = Some (Inr 1, env_up2)"
  by (subst openStream.simps, subst connect.simps)
    (simp add: env_up1_def env_up2_def host_call_def add.assoc)

theorem write_error_recovery_witness:
  "\<exists>s. run rstep sched_fail (new_remote env_up) = Next s \<and> rpc s = REnd True \<and>
       last_failed (wire s) \<and>
       rstep Loop s = Next (s\<lparr>wire := [NWriteMsg 0 [Some 1] False, NReset 0], rpc := RReopen\<rparr>) \<and>
       rstep Loop (s\<lparr>wire := [NWriteMsg 0 [Some 1] False, NReset 0], rpc := RReopen\<rparr>) =
         Next (s\<lparr>net := env_up2, strm := Some 1, err := None, gzipW := 1,
                 wire := [NWriteMsg 0 [Some 1] False, NReset 0, NGzipReset 1],
                 rpc := RRecv\<rparr>) \<and>
       prefix (concat (written [NWriteMsg 0 [Some 1] False, NReset 0, NGzipReset (1::nat)]))
         (map Some (enqueued (sched_fail @ [Loop, Loop])))"
proof -
  obtain s where s: "run rstep sched_fail (new_remote env_up) = Next s" "rpc s = REnd True"
    "strm s = Some 0" "wire s = [NWriteMsg 0 [Some 1] False]"
    "net s = env_up1\<lparr>now := 5 + second\<rparr>"
    using sched_fail_runs by blast
  have bad: "last_failed (wire s)" using s(4) by (simp add: last_failed_def)
  let ?s1 = "s\<lparr>wire := [NWriteMsg 0 [Some 1] False, NReset 0], rpc := RReopen\<rparr>"
  let ?s2 = "s\<lparr>net := env_up2, strm := Some 1, err := None, gzipW := 1,
                wire := [NWriteMsg 0 [Some 1] False, NReset 0, NGzipReset 1], rpc := RRecv\<rparr>"
  note inst = write_error_recovery[OF s(1,2) bad]
  from inst s openStream_env_up1 have 1: "rstep Loop s = Next ?s1" and 2: "rstep Loop ?s1 = Next ?s2"
    by auto
  then have "run rstep [Loop, Loop] s = Next ?s2" by simp
  with inst have "prefix (concat (written (wire ?s2))) (map Some (enqueued (sched_fail @ [Loop, Loop])))"
    by blast
  with s(1,2) bad 1 2 show ?thesis by auto
qed

text \<open>
  C8. At the length test of the remote write loop, reached from any interleaving, with an
  empty batch: neither \<open>WriteMsg\<close> nor \<open>Flush\<close> can happen; the loop goes to the label \<open>end\<close>
  with the stream, the compressor, \<open>err\<close> and the history of network operations as they
  were; no error is pending, so that unless the loop is closing its next step is back to
  the receive, again with nothing changed.
\<close>

theorem empty_batch_no_io:
  assumes reach: "run rstep as (new_remote env) = Next s"
    and at: "rpc s = RWrite ok"
    and empty: "len (lbuf s) = 0"
  shows "last (batches s) = [] \<and>
         rstep (WriteMsg g) s = Disabled \<and> rstep (Flush g) s = Disabled \<and>
         rstep Loop s = Next (s\<lparr>rpc := REnd ok\<rparr>) \<and>
         err s = None \<and> \<not> last_failed (wire s) \<and>
         (ok \<longrightarrow> rstep Loop (s\<lparr>rpc := REnd ok\<rparr>) = Next (s\<lparr>rpc := RRecv\<rparr>))"
proof -
  note inv = rinv_reach(1)[OF reach]
  from inv empty have "cells (heap s) (lbuf s) = []"
    using length_cells[of "heap s" "lbuf s"] by (simp add: rinv_def sinv_def)
  with inv at have b: "last (batches s) = []"
    by (simp add: rinv_def writes_ok_def)
  from inv at have e: "err s = None" "\<not> last_failed (wire s)"
    by (simp_all add: rinv_def err_ok_def)
  from at empty e b show ?thesis
    by (simp add: remote_step_def remote_write_def remote_flush_def)
qed

lemma sched_empty_runs:
  "\<exists>s. run rstep sched_empty (new_remote env_up) = Next s \<and> rpc s = RWrite True \<and>
       len (lbuf s) = 0 \<and> wire s = [NWriteMsg 0 [Some 1, Some 2] True, NFlush 0 True]"
  by (simp add: sched_empty_def new_remote_def NewRemoteTracer_def openStream_env_up step_defs)

theorem empty_batch_no_io_witness:
  "\<exists>s. run rstep sched_empty (new_remote env_up) = Next s \<and> rpc s = RWrite True \<and>
       len (lbuf s) = 0 \<and> rstep (WriteMsg True) s = Disabled \<and>
       rstep Loop s = Next (s\<lparr>rpc := REnd True\<rparr>) \<and>
       rstep Loop (s\<lparr>rpc := REnd True\<rparr>) = Next (s\<lparr>rpc := RRecv\<rparr>)"
proof -
  obtain s where s: "run rstep sched_empty (new_remote env_up) = Next s" "rpc s = RWrite True"
    "len (lbuf s) = 0"
    using sched_empty_runs by blast
  from empty_batch_no_io[OF s, of True] s show ?thesis by auto
qed

text \<open>
  C10. Whatever the context and the behaviour of the host, \<open>NewRemoteTracer\<close> returns a
  tracer and no error, and has made no call to the host: the tracer's goroutine stands
  before its first \<open>openStream\<close>. A peer that cannot be reached shows there: while
  \<open>openStream\<close> keeps retrying the loop does not move, and when it gives up the loop logs
  the error and returns.
\<close>

theorem new_remote_tracer_never_fails:
  "\<exists>tr. (NewRemoteTracer env :: 'e remote option \<times> error option) = (Some tr, None) \<and>
        net tr = env \<and> rpc tr = ROpen \<and> wire tr = [] \<and> strm tr = None \<and>
        (openStream env = None \<longrightarrow> rstep Loop tr = Disabled) \<and>
        (\<forall>e env'. openStream env = Some (Inl e, env') \<longrightarrow>
           rstep Loop tr =
             Next (tr\<lparr>net := env', strm := None, err := Some e, errlog := 1, rpc := RDone\<rparr>))"
proof -
  let ?tr = "new_remote env :: 'e remote"
  have "NewRemoteTracer env = (Some ?tr, None) \<and>
        net ?tr = env \<and> rpc ?tr = ROpen \<and> wire ?tr = [] \<and> strm ?tr = None \<and>
        (openStream env = None \<longrightarrow> rstep Loop ?tr = Disabled) \<and>
        (\<forall>e env'. openStream env = Some (Inl e, env') \<longrightarrow>
           rstep Loop ?tr =
             Next (?tr\<lparr>net := env', strm := None, err := Some e, errlog := 1, rpc := RDone\<rparr>))"
    by (simp add: new_remote_def NewRemoteTracer_def remote_step_def)
  then show ?thesis by (rule exI)
qed

subsection \<open>Connecting and opening the stream\<close>

lemma connect_Cons:
  "replies env = r # rs \<Longrightarrow>
     connect env =
       (if \<not> snd r then
          if cancelled (host_call Connect r env) then Some (Some HostError, host_call Connect r env)
          else if fst (backoff (host_call Connect r env))
               then connect (snd (backoff (host_call Connect r env)))
               else Some (Some CtxError, snd (backoff (host_call Connect r env)))
        else Some (None, host_call Connect r env))"
  by (subst connect.simps) simp

lemma connect_Nil: "replies env = [] \<Longrightarrow> connect env = None"
  by (subst connect.simps) simp

lemma openStream_Nil: "replies env = [] \<Longrightarrow> openStream env = None"
  by (subst openStream.simps) (simp add: connect_Nil)

lemma connect_retry:
  assumes "replies env = (d, False) # rs" "alive_at env (now env + d + minute)"
  shows "connect env =
           connect (env\<lparr>now := now env + d + minute, replies := rs,
                        calls := calls env @ [(Connect, now env)]\<rparr>)"
  using assms
  by (cases env)
    (simp add: connect_Cons cancelled_def backoff_def host_call_def alive_at_def
      split: option.splits)

lemma connect_cancelled:
  assumes "replies env = (d, False) # rs" "cancel_at env = Some c" "c \<le> now env + d"
  shows "connect env =
           Some (Some HostError,
                 env\<lparr>now := now env + d, replies := rs, calls := calls env @ [(Connect, now env)]\<rparr>)"
  using assms by (simp add: connect_Cons cancelled_def host_call_def)

lemma connect_ctx_done:
  assumes "replies env = (d, False) # rs" "cancel_at env = Some c" "now env + d < c"
    "c < now env + d + minute"
  shows "connect env =
           Some (Some CtxError,
                 env\<lparr>now := c, replies := rs, calls := calls env @ [(Connect, now env)]\<rparr>)"
  using assms by (simp add: connect_Cons cancelled_def backoff_def host_call_def max_def)

lemma connect_ok:
  assumes "replies env = (d, True) # rs"
  shows "connect env =
           Some (None,
                 env\<lparr>now := now env + d, replies := rs, calls := calls env @ [(Connect, now env)]\<rparr>)"
  using assms by (simp add: connect_Cons host_call_def)

lemma connect_retries:
  "replies env = map (\<lambda>d. (d, False)) ds @ rest \<Longrightarrow>
   alive_at env (now env + sum_list ds + length ds * minute) \<Longrightarrow>
     connect env =
       connect (env\<lparr>now := now env + sum_list ds + length ds * minute, replies := rest,
                    calls := calls env @ connect_attempts (now env) ds\<rparr>)"
proof (induction ds arbitrary: env)
  case Nil
  then show ?case by (cases env) simp
next
  case (Cons d ds)
  let ?e = "env\<lparr>now := now env + d + minute,
                replies := map (\<lambda>d. (d, False)) ds @ rest,
                calls := calls env @ [(Connect, now env)]\<rparr>"
  from Cons.prems(2) have al: "alive_at env (now env + d + minute)"
    by (auto simp: alive_at_def split: option.splits)
  from Cons.prems(1) have "replies env = (d, False) # (map (\<lambda>d. (d, False)) ds @ rest)"
    by simp
  from connect_retry[OF this al] have 1: "connect env = connect ?e" .
  have r: "replies ?e = map (\<lambda>d. (d, False)) ds @ rest" by simp
  from Cons.prems(2) have a: "alive_at ?e (now ?e + sum_list ds + length ds * minute)"
    by (simp add: alive_at_def add.assoc add.left_commute split: option.splits)
  from Cons.IH[OF r a] 1 show ?case
    by (simp add: add.assoc add.left_commute)
qed

lemma openStream_connected:
  assumes "replies env = (d1, True) # r # rs"
  shows "openStream env =
     (let e1 = env\<lparr>now := now env + d1, replies := r # rs,
                    calls := calls env @ [(Connect, now env)]\<rparr>
      in if \<not> snd r then
           if cancelled (host_call NewStream r e1) then Some (Inl HostError, host_call NewStream r e1)
           else if fst (backoff (host_call NewStream r e1))
                then openStream (snd (backoff (host_call NewStream r e1)))
                else Some (Inl CtxError, snd (backoff (host_call NewStream r e1)))
         else Some (Inr (opened e1), (host_call NewStream r e1)\<lparr>opened := Suc (opened e1)\<rparr>))"
  by (subst openStream.simps) (simp add: connect_ok[OF assms] Let_def)

lemma openStream_retry:
  assumes "replies env = (d1, True) # (d2, False) # rs"
    "alive_at env (now env + d1 + d2 + minute)"
  shows "openStream env =
           openStream (env\<lparr>now := now env + d1 + d2 + minute, replies := rs,
                           calls := calls env @ [(Connect, now env), (NewStream, now env + d1)]\<rparr>)"
  using assms(2) unfolding openStream_connected[OF assms(1)]
  by (cases env)
    (simp add: cancelled_def backoff_def host_call_def alive_at_def Let_def
      split: option.splits)

lemma openStream_cancelled:
  assumes "replies env = (d1, True) # (d2, False) # rs" "cancel_at env = Some c"
    "c \<le> now env + d1 + d2"
  shows "openStream env =
           Some (Inl HostError,
                 env\<lparr>now := now env + d1 + d2, replies := rs,
                     calls := calls env @ [(Connect, now env), (NewStream, now env + d1)]\<rparr>)"
  using assms(2,3)
  by (simp add: openStream_connected[OF assms(1)] cancelled_def host_call_def Let_def)

lemma openStream_ctx_done:
  assumes "replies env = (d1, True) # (d2, False) # rs" "cancel_at env = Some c"
    "now env + d1 + d2 < c" "c < now env + d1 + d2 + minute"
  shows "openStream env =
           Some (Inl CtxError,
                 env\<lparr>now := c, replies := rs,
                     calls := calls env @ [(Connect, now env), (NewStream, now env + d1)]\<rparr>)"
  using assms(2,3,4)
  by (simp add: openStream_connected[OF assms(1)] cancelled_def backoff_def host_call_def
      Let_def max_def)

lemma openStream_retries:
  "replies env = open_rounds ps @ rest \<Longrightarrow>
   alive_at env (now env + rounds_time ps) \<Longrightarrow>
     openStream env =
       openStream (env\<lparr>now := now env + rounds_time ps, replies := rest,
                       calls := calls env @ open_attempts (now env) ps\<rparr>)"
proof (induction ps arbitrary: env rule: open_rounds.induct)
  case 1
  then show ?case by (cases env) simp
next
  case (2 d1 d2 ps)
  let ?e = "env\<lparr>now := now env + d1 + d2 + minute, replies := open_rounds ps @ rest,
                calls := calls env @ [(Connect, now env), (NewStream, now env + d1)]\<rparr>"
  from "2.prems"(2) have al: "alive_at env (now env + d1 + d2 + minute)"
    by (auto simp: alive_at_def split: option.splits)
  from "2.prems"(1) have "replies env = (d1, True) # (d2, False) # (open_rounds ps @ rest)"
    by simp
  from openStream_retry[OF this al] have 1: "openStream env = openStream ?e" .
  have r: "replies ?e = open_rounds ps @ rest" by simp
  from "2.prems"(2) have a: "alive_at ?e (now ?e + rounds_time ps)"
    by (simp add: alive_at_def add.assoc add.left_commute split: option.splits)
  from "2.IH"[OF r a] 1 show ?case
    by (simp add: add.assoc add.left_commute)
qed

text \<open>
  C7. \<open>connect\<close>: when the \<open>Connect\<close> calls fail one after the other and the context is not
  cancelled by then, each is followed by the next exactly one minute after its failure,
  however many there are, and \<open>connect\<close> has not returned while they last; a failure at a time
  when the context is cancelled makes \<open>connect\<close> return the host's error at once, without
  another call; a cancellation during the minute of waiting makes it return the context's
  error at that moment. \<open>openStream\<close>: the same for rounds of a \<open>Connect\<close> that succeeds and
  a \<open>NewStream\<close> that fails, the whole round being repeated after the minute.
\<close>

theorem retry_backoff:
  "(replies env = map (\<lambda>d. (d, False)) ds @ rest \<and>
    alive_at env (now env + sum_list ds + length ds * minute) \<longrightarrow>
      connect env =
        connect (env\<lparr>now := now env + sum_list ds + length ds * minute, replies := rest,
                     calls := calls env @ connect_attempts (now env) ds\<rparr>) \<and>
      (rest = [] \<longrightarrow> connect env = None)) \<and>
   (replies env = (d, False) # rs \<and> cancel_at env = Some c \<and> c \<le> now env + d \<longrightarrow>
      connect env =
        Some (Some HostError,
              env\<lparr>now := now env + d, replies := rs,
                  calls := calls env @ [(Connect, now env)]\<rparr>)) \<and>
   (replies env = (d, False) # rs \<and> cancel_at env = Some c \<and> now env + d < c \<and>
    c < now env + d + minute \<longrightarrow>
      connect env =
        Some (Some CtxError,
              env\<lparr>now := c, replies := rs, calls := calls env @ [(Connect, now env)]\<rparr>)) \<and>
   (replies env = open_rounds ps @ rest \<and> alive_at env (now env + rounds_time ps) \<longrightarrow>
      openStream env =
        openStream (env\<lparr>now := now env + rounds_time ps, replies := rest,
                        calls := calls env @ open_attempts (now env) ps\<rparr>) \<and>
      (rest = [] \<longrightarrow> openStream env = None)) \<and>
   (replies env = (d1, True) # (d2, False) # rs \<and> cancel_at env = Some c \<and>
    c \<le> now env + d1 + d2 \<longrightarrow>
      openStream env =
        Some (Inl HostError,
              env\<lparr>now := now env + d1 + d2, replies := rs,
                  calls := calls env @ [(Connect, now env), (NewStream, now env + d1)]\<rparr>)) \<and>
   (replies env = (d1, True) # (d2, False) # rs \<and> cancel_at env = Some c \<and>
    now env + d1 + d2 < c \<and> c < now env + d1 + d2 + minute \<longrightarrow>
      openStream env =
        Some (Inl CtxError,
              env\<lparr>now := c, replies := rs,
                  calls := calls env @ [(Connect, now env), (NewStream, now env + d1)]\<rparr>))"
proof (intro conjI impI; (elim conjE)?)
  assume a: "replies env = map (\<lambda>d. (d, False)) ds @ rest"
    "alive_at env (now env + sum_list ds + length ds * minute)"
  from connect_retries[OF a]
  show c: "connect env =
        connect (env\<lparr>now := now env + sum_list ds + length ds * minute, replies := rest,
                     calls := calls env @ connect_attempts (now env) ds\<rparr>)" .
  assume "rest = []"
  then show "connect env = None"
    unfolding c by (simp add: connect_Nil)
next
  assume a: "replies env = open_rounds ps @ rest" "alive_at env (now env + rounds_time ps)"
  from openStream_retries[OF a]
  show c: "openStream env =
        openStream (env\<lparr>now := now env + rounds_time ps, replies := rest,
                        calls := calls env @ open_attempts (now env) ps\<rparr>)" .
  assume "rest = []"
  then show "openStream env = None"
    unfolding c by (simp add: openStream_Nil)
qed (simp_all add: connect_cancelled connect_ctx_done openStream_cancelled openStream_ctx_done)

theorem retry_backoff_witness:
  "connect (env_down None [(5, False), (7, False), (3, True)]) =
     Some (None, \<lparr>now = 115 + 2 * minute, cancel_at = None, timer_first = True, replies = [],
                  opened = 0,
                  calls = [(Connect, 100), (Connect, 105 + minute), (Connect, 112 + 2 * minute)]\<rparr>) \<and>
   connect (env_down None [(5, False), (7, False)]) = None \<and>
   connect (env_down (Some 104) [(5, False), (7, True)]) =
     Some (Some HostError, \<lparr>now = 105, cancel_at = Some 104, timer_first = True,
                             replies = [(7, True)], opened = 0, calls = [(Connect, 100)]\<rparr>) \<and>
   connect (env_down (Some 200) [(5, False), (7, True)]) =
     Some (Some CtxError, \<lparr>now = 200, cancel_at = Some 200, timer_first = True,
                            replies = [(7, True)], opened = 0, calls = [(Connect, 100)]\<rparr>) \<and>
   openStream (env_down None [(5, True), (7, False), (1, True), (2, True)]) =
     Some (Inr 0, \<lparr>now = 115 + minute, cancel_at = None, timer_first = True, replies = [],
                   opened = 1,
                   calls = [(Connect, 100), (NewStream, 105), (Connect, 112 + minute),
                            (NewStream, 113 + minute)]\<rparr>) \<and>
   openStream (env_down None [(5, True), (7, False)]) = None \<and>
   openStream (env_down (Some 110) [(5, True), (7, False), (1, True)]) =
     Some (Inl HostError, \<lparr>now = 112, cancel_at = Some 110, timer_first = True,
                            replies = [(1, True)], opened = 0,
                            calls = [(Connect, 100), (NewStream, 105)]\<rparr>) \<and>
   openStream (env_down (Some 200) [(5, True), (7, False), (1, True)]) =
     Some (Inl CtxError, \<lparr>now = 200, cancel_at = Some 200, timer_first = True,
                           replies = [(1, True)], opened = 0,
                           calls = [(Connect, 100), (NewStream, 105)]\<rparr>)"
proof -
  have m: "100 < minute" by (simp add: minute_def second_def)
  have 1: "connect (env_down None [(5, False), (7, False), (3, True)]) =
     Some (None, \<lparr>now = 115 + 2 * minute, cancel_at = None, timer_first = True, replies = [],
                  opened = 0,
                  calls = [(Connect, 100), (Connect, 105 + minute), (Connect, 112 + 2 * minute)]\<rparr>)"
    using retry_backoff[where env = "env_down None [(5, False), (7, False), (3, True)]"
        and ds = "[5, 7]" and rest = "[(3, True)]",
        THEN conjunct1]
    by (simp add: env_down_def alive_at_def connect_ok)
  have 2: "connect (env_down None [(5, False), (7, False)]) = None"
    using retry_backoff[where env = "env_down None [(5, False), (7, False)]" and ds = "[5, 7]"
        and rest = "[]",
        THEN conjunct1]
    by (simp add: env_down_def alive_at_def connect_Nil)
  have 3: "connect (env_down (Some 104) [(5, False), (7, True)]) =
     Some (Some HostError, \<lparr>now = 105, cancel_at = Some 104, timer_first = True,
                             replies = [(7, True)], opened = 0, calls = [(Connect, 100)]\<rparr>)"
    using retry_backoff[where env = "env_down (Some 104) [(5, False), (7, True)]" and d = 5
        and rs = "[(7, True)]" and c = 104,
        THEN conjunct2, THEN conjunct1]
    by (simp add: env_down_def)
  have 4: "connect (env_down (Some 200) [(5, False), (7, True)]) =
     Some (Some CtxError, \<lparr>now = 200, cancel_at = Some 200, timer_first = True,
                            replies = [(7, True)], opened = 0, calls = [(Connect, 100)]\<rparr>)"
    using retry_backoff[where env = "env_down (Some 200) [(5, False), (7, True)]" and d = 5
        and rs = "[(7, True)]" and c = 200,
        THEN conjunct2, THEN conjunct2, THEN conjunct1] m
    by (simp add: env_down_def)
  have 5: "openStream (env_down None [(5, True), (7, False), (1, True), (2, True)]) =
     Some (Inr 0, \<lparr>now = 115 + minute, cancel_at = None, timer_first = True, replies = [],
                   opened = 1,
                   calls = [(Connect, 100), (NewStream, 105), (Connect, 112 + minute),
                            (NewStream, 113 + minute)]\<rparr>)"
    using retry_backoff[where env = "env_down None [(5, True), (7, False), (1, True), (2, True)]"
        and ps = "[(5, 7)]" and rest = "[(1, True), (2, True)]",
        THEN conjunct2, THEN conjunct2, THEN conjunct2, THEN conjunct1]
    by (simp add: env_down_def alive_at_def openStream_connected host_call_def Let_def)
  have 6: "openStream (env_down None [(5, True), (7, False)]) = None"
    using retry_backoff[where env = "env_down None [(5, True), (7, False)]" and ps = "[(5, 7)]"
        and rest = "[]",
        THEN conjunct2, THEN conjunct2, THEN conjunct2, THEN conjunct1]
    by (simp add: env_down_def alive_at_def openStream_Nil)
  have 7: "openStream (env_down (Some 110) [(5, True), (7, False), (1, True)]) =
     Some (Inl HostError, \<lparr>now = 112, cancel_at = Some 110, timer_first = True,
                            replies = [(1, True)], opened = 0,
                            calls = [(Connect, 100), (NewStream, 105)]\<rparr>)"
    using retry_backoff[where env = "env_down (Some 110) [(5, True), (7, False), (1, True)]"
        and ?d1.0 = 5 and ?d2.0 = 7 and rs = "[(1, True)]" and c = 110,
        THEN conjunct2, THEN conjunct2, THEN conjunct2, THEN conjunct2,
        THEN conjunct1]
    by (simp add: env_down_def)
  have 8: "openStream (env_down (Some 200) [(5, True), (7, False), (1, True)]) =
     Some (Inl CtxError, \<lparr>now = 200, cancel_at = Some 200, timer_first = True,
                           replies = [(1, True)], opened = 0,
                           calls = [(Connect, 100), (NewStream, 105)]\<rparr>)"
    using retry_backoff[where env = "env_down (Some 200) [(5, True), (7, False), (1, True)]"
        and ?d1.0 = 5 and ?d2.0 = 7 and rs = "[(1, True)]" and c = 200,
        THEN conjunct2, THEN conjunct2, THEN conjunct2, THEN conjunct2,
        THEN conjunct2] m
    by (simp add: env_down_def)
  from 1 2 3 4 5 6 7 8 show ?thesis by blast
qed

subsection \<open>Construction of the remote tracer on an unreachable peer\<close>

theorem new_remote_tracer_never_fails_witness:
  "\<exists>tr ts. (NewRemoteTracer (env_down None [(5, False)]) :: nat remote option \<times> error option) =
             (Some tr, None) \<and>
           openStream (env_down None [(5, False)]) = None \<and> rstep Loop tr = Disabled \<and>
           (NewRemoteTracer (env_down (Some 104) [(5, False)]) :: nat remote option \<times> error option) =
             (Some ts, None) \<and>
           rstep Loop ts =
             Next (ts\<lparr>net := \<lparr>now = 105, cancel_at = Some 104, timer_first = True, replies = [],
                               opened = 0, calls = [(Connect, 100)]\<rparr>,
                      strm := None, err := Some HostError, errlog := 1, rpc := RDone\<rparr>)"
proof -
  have o1: "openStream (env_down None [(5, False)]) = None"
    using connect_retries[of "env_down None [(5, False)]" "[5]" "[]"]
    by (subst openStream.simps) (simp add: env_down_def alive_at_def connect_Nil)
  have o2: "openStream (env_down (Some 104) [(5, False)]) =
      Some (Inl HostError,
            \<lparr>now = 105, cancel_at = Some 104, timer_first = True, replies = [], opened = 0,
               calls = [(Connect, 100)]\<rparr>)"
    using connect_cancelled[of "env_down (Some 104) [(5, False)]" 5 "[]" 104]
    by (subst openStream.simps) (simp add: env_down_def)
  from new_remote_tracer_never_fails[of "env_down None [(5, False)]", where ?'e = nat] o1
  obtain tr :: "nat remote" where tr: "NewRemoteTracer (env_down None [(5, False)]) = (Some tr, None)"
    "rstep Loop tr = Disabled"
    by blast
  from new_remote_tracer_never_fails[of "env_down (Some 104) [(5, False)]", where ?'e = nat] o2
  obtain ts :: "nat remote"
    where ts: "NewRemoteTracer (env_down (Some 104) [(5, False)]) = (Some ts, None)"
      "rstep Loop ts =
         Next (ts\<lparr>net := \<lparr>now = 105, cancel_at = Some 104, timer_first = True, replies = [],
                           opened = 0, calls = [(Connect, 100)]\<rparr>,
                  strm := None, err := Some HostError, errlog := 1, rpc := RDone\<rparr>)"
    by blast
  from tr ts o1 show ?thesis by blast
qed

end
